theory Spec2Isabelle
  imports
    Main
    "HOL-Library.Multiset"
    "HOL-Library.AList"
    "HOL-Library.Char_ord"
    "HOL-Library.List_Lexorder"
    "HOL-Library.Option_ord"
    "HOL-Library.Product_Lexorder"
begin

section \<open>Python containers\<close>

text \<open>
  A Python \<^verbatim>\<open>set\<close> of integers is modelled by the list of its elements in the order in
  which they were first added. Membership and \<^verbatim>\<open>add\<close> are determined by that list. The order
  in which a \<^verbatim>\<open>for\<close> loop visits the elements is an implementation matter of the hash
  table; it is a parameter \<open>iter\<close> of every function that loops over a set, and the only
  thing assumed of it is that it yields each element once (\<open>set_order\<close>).
\<close>

type_synonym pyset = "int list"

definition pyset_add :: "int \<Rightarrow> pyset \<Rightarrow> pyset" where
  "pyset_add x s = (if x \<in> set s then s else s @ [x])"

definition pyset_of :: "int list \<Rightarrow> pyset" where
  "pyset_of xs = foldl (\<lambda>s x. pyset_add x s) [] xs"

definition set_order :: "(pyset \<Rightarrow> int list) \<Rightarrow> bool" where
  "set_order iter \<longleftrightarrow> (\<forall>s. mset (iter s) = mset s)"

text \<open>
  A Python \<^verbatim>\<open>dict\<close> is an association list in insertion order; \<open>AList.update\<close> overwrites
  the value of a key that is present and appends a new key at the end, as item assignment does.
  \<open>dict_get d k v\<close> is \<^verbatim>\<open>d.get(k, v)\<close>.
\<close>

type_synonym 'v pydict = "(int \<times> 'v) list"

definition dict_get :: "'v pydict \<Rightarrow> int \<Rightarrow> 'v \<Rightarrow> 'v" where
  "dict_get d k v = (case map_of d k of None \<Rightarrow> v | Some w \<Rightarrow> w)"

text \<open>
  \<open>defaultdict_getitem d k\<close> is \<^verbatim>\<open>d[k]\<close> on a \<^verbatim>\<open>defaultdict(set)\<close>: a missing key is
  first inserted with an empty set. It returns the dictionary after the access and the value.
\<close>

definition defaultdict_getitem :: "pyset pydict \<Rightarrow> int \<Rightarrow> pyset pydict \<times> pyset" where
  "defaultdict_getitem d k =
     (case map_of d k of None \<Rightarrow> (AList.update k [] d, []) | Some s \<Rightarrow> (d, s))"

section \<open>Graph engine (graph.py)\<close>

type_synonym edge = "int \<times> int"

subsection \<open>build_adjacency\<close>

text \<open>The body of the loop, for one edge \<^verbatim>\<open>(task_id, prereq_id)\<close>.\<close>

definition build_adjacency_body :: "edge \<Rightarrow> pyset pydict \<Rightarrow> pyset pydict" where
  "build_adjacency_body e adj =
     (case e of (task_id, prereq_id) \<Rightarrow>
        let (adj1, s) = defaultdict_getitem adj task_id;
            adj2 = AList.update task_id (pyset_add prereq_id s) adj1
        in if map_of adj2 prereq_id = None
           then (let (adj3, s') = defaultdict_getitem adj2 prereq_id
                 in AList.update prereq_id s' adj3)
           else adj2)"

fun build_adjacency_loop :: "edge list \<Rightarrow> pyset pydict \<Rightarrow> pyset pydict" where
  "build_adjacency_loop [] adj = adj"
| "build_adjacency_loop (e # edges) adj = build_adjacency_loop edges (build_adjacency_body e adj)"

definition build_adjacency :: "edge list \<Rightarrow> pyset pydict" where
  "build_adjacency edges = build_adjacency_loop edges []"

subsection \<open>has_path\<close>

text \<open>
  The \<^verbatim>\<open>for\<close> loop over the neighbours of a node: \<open>None\<close> when the target is met (the
  function returns true at once), otherwise the stack after the loop.
\<close>

fun has_path_for :: "int \<Rightarrow> int set \<Rightarrow> int list \<Rightarrow> int list \<Rightarrow> int list option" where
  "has_path_for target visited [] stack = Some stack"
| "has_path_for target visited (nxt # rest) stack =
     (if nxt = target then None
      else if nxt \<notin> visited then has_path_for target visited rest (stack @ [nxt])
      else has_path_for target visited rest stack)"

text \<open>
  The \<^verbatim>\<open>while stack\<close> loop. The stack is a Python list: \<^verbatim>\<open>pop()\<close> takes its last
  element, \<^verbatim>\<open>append\<close> adds at the end. The result \<open>None\<close> stands for a loop that never ends.
\<close>

partial_function (option) has_path_while ::
  "(pyset \<Rightarrow> int list) \<Rightarrow> pyset pydict \<Rightarrow> int \<Rightarrow> int list \<Rightarrow> int set \<Rightarrow> bool option" where
  "has_path_while iter adj target stack visited =
     (if stack = [] then Some False
      else
        let node = last stack; stack1 = butlast stack in
        if node \<in> visited then has_path_while iter adj target stack1 visited
        else
          let visited1 = insert node visited in
          case has_path_for target visited1 (iter (dict_get adj node [])) stack1 of
            None \<Rightarrow> Some True
          | Some stack2 \<Rightarrow> has_path_while iter adj target stack2 visited1)"

declare has_path_while.simps [code]

definition has_path :: "(pyset \<Rightarrow> int list) \<Rightarrow> pyset pydict \<Rightarrow> int \<Rightarrow> int \<Rightarrow> bool option" where
  "has_path iter adj start target =
     (if start = target then Some True
      else has_path_while iter adj target [start] {})"

subsection \<open>would_create_cycle\<close>

definition would_create_cycle :: "(pyset \<Rightarrow> int list) \<Rightarrow> edge list \<Rightarrow> int \<Rightarrow> int \<Rightarrow> bool option" where
  "would_create_cycle iter edges task_id prereq_id =
     (if task_id = prereq_id then Some True
      else has_path iter (build_adjacency edges) prereq_id task_id)"

subsection \<open>topo_sort\<close>

text \<open>
  The exceptions of the program. topo_sort can raise \<^verbatim>\<open>KeyError\<close>, from a subscript on
  the plain dictionary \<^verbatim>\<open>indegree\<close>, and the \<^verbatim>\<open>ValueError\<close> of its last lines; the
  other two come from the database (\<^verbatim>\<open>sqlite3.IntegrityError\<close> and the
  \<^verbatim>\<open>OverflowError\<close> of an integer that does not fit 64 bits).
\<close>

datatype error = KeyError | ValueError | IntegrityError | OverflowError

definition dict_getitem :: "'v pydict \<Rightarrow> int \<Rightarrow> error + 'v" where
  "dict_getitem d k = (case map_of d k of None \<Rightarrow> Inl KeyError | Some v \<Rightarrow> Inr v)"

text \<open>The body of the loop over the edges; the state is \<^verbatim>\<open>(prereq_to_dependents, indegree)\<close>.\<close>

definition topo_sort_edge ::
  "pyset \<Rightarrow> edge \<Rightarrow> pyset pydict \<times> int pydict \<Rightarrow> error + pyset pydict \<times> int pydict" where
  "topo_sort_edge tasks_set e st =
     (case e of (task, prereq) \<Rightarrow>
      case st of (prereq_to_dependents, indegree) \<Rightarrow>
        if task \<notin> set tasks_set \<or> prereq \<notin> set tasks_set then Inr st
        else
          let (dependents1, s) = defaultdict_getitem prereq_to_dependents prereq;
              dependents2 = AList.update prereq (pyset_add task s) dependents1
          in case dict_getitem indegree task of
               Inl err \<Rightarrow> Inl err
             | Inr deg \<Rightarrow> Inr (dependents2, AList.update task (deg + 1) indegree))"

fun topo_sort_edges ::
  "pyset \<Rightarrow> edge list \<Rightarrow> pyset pydict \<times> int pydict \<Rightarrow> error + pyset pydict \<times> int pydict" where
  "topo_sort_edges tasks_set [] st = Inr st"
| "topo_sort_edges tasks_set (e # edges) st =
     (case topo_sort_edge tasks_set e st of
        Inl err \<Rightarrow> Inl err
      | Inr st' \<Rightarrow> topo_sort_edges tasks_set edges st')"

text \<open>
  The \<^verbatim>\<open>for dep in ...\<close> loop inside the \<^verbatim>\<open>while\<close> loop; the state is
  \<^verbatim>\<open>(indegree, q)\<close>. The test \<^verbatim>\<open>indegree[dep] == 0\<close> reads the value just stored.
\<close>

fun kahn_for :: "int list \<Rightarrow> int pydict \<times> int list \<Rightarrow> error + int pydict \<times> int list" where
  "kahn_for [] st = Inr st"
| "kahn_for (dep # deps) (indegree, q) =
     (case dict_getitem indegree dep of
        Inl err \<Rightarrow> Inl err
      | Inr deg \<Rightarrow>
          kahn_for deps (AList.update dep (deg - 1) indegree,
                         if deg - 1 = 0 then q @ [dep] else q))"

text \<open>
  The \<^verbatim>\<open>while q\<close> loop. The deque is a list: \<^verbatim>\<open>popleft\<close> takes its head and
  \<^verbatim>\<open>append\<close> adds at the end. Every pass removes one element from the queue, and the
  inner loop adds one only when an in-degree drops from one to zero, so the length of the
  queue plus the number of positive in-degrees decreases.
\<close>

definition positive_entries :: "int pydict \<Rightarrow> nat" where
  "positive_entries indegree = length (filter (\<lambda>kv. 0 < snd kv) indegree)"

function kahn_while ::
  "(pyset \<Rightarrow> int list) \<Rightarrow> pyset pydict \<Rightarrow> int list \<Rightarrow> int list \<Rightarrow> int pydict \<Rightarrow> error + int list" where
  "kahn_while iter prereq_to_dependents [] out indegree = Inr out"
| "kahn_while iter prereq_to_dependents (n # q) out indegree =
     (case kahn_for (iter (dict_get prereq_to_dependents n [])) (indegree, q) of
        Inl err \<Rightarrow> Inl err
      | Inr (indegree', q') \<Rightarrow> kahn_while iter prereq_to_dependents q' (out @ [n]) indegree')"
  by pat_completeness auto
termination
proof (relation "measure (\<lambda>(iter, prereq_to_dependents, q, out, indegree).
                    length q + positive_entries indegree)")
  show "wf (measure (\<lambda>(iter, prereq_to_dependents, q, out, indegree).
                    length q + positive_entries indegree))"
    by simp
next
  fix iter :: "pyset \<Rightarrow> int list" and prereq_to_dependents :: "pyset pydict"
    and n :: int and q out :: "int list" and indegree :: "int pydict"
    and x2 :: "int pydict \<times> int list" and indegree' q'
  assume run: "kahn_for (iter (dict_get prereq_to_dependents n [])) (indegree, q) = Inr x2"
    and x2: "(indegree', q') = x2"
  have upd: "positive_entries (AList.update k (v - 1) d) + (if v - 1 = 0 then 1 else 0)
               = positive_entries d"
    if "map_of d k = Some v" for k v and d :: "int pydict"
    using that
    by (induction d) (auto simp: positive_entries_def split: if_splits)
  have "length q2 + positive_entries i2 = length q1 + positive_entries i1"
    if "kahn_for ds (i1, q1) = Inr (i2, q2)" for ds i1 q1 i2 q2
    using that
  proof (induction ds arbitrary: i1 q1)
    case Nil
    then show ?case by simp
  next
    case (Cons d ds)
    from Cons.prems obtain v where v: "map_of i1 d = Some v"
      by (auto simp: dict_getitem_def split: option.splits)
    with Cons.prems have
      "kahn_for ds (AList.update d (v - 1) i1, if v - 1 = 0 then q1 @ [d] else q1) = Inr (i2, q2)"
      by (simp add: dict_getitem_def)
    from Cons.IH[OF this] upd[OF v] show ?case
      by (auto split: if_splits)
  qed
  from this[of _ indegree q indegree' q'] run x2
  show "((iter, prereq_to_dependents, q', out @ [n], indegree'),
         (iter, prereq_to_dependents, n # q, out, indegree))
        \<in> measure (\<lambda>(iter, prereq_to_dependents, q, out, indegree).
                    length q + positive_entries indegree)"
    by auto
qed

text \<open>
  \<open>topo_sort_out\<close> is the list \<^verbatim>\<open>out\<close> when the \<^verbatim>\<open>while\<close> loop has ended;
  \<open>topo_sort\<close> adds the final comparison of lengths. The dictionary \<^verbatim>\<open>indegree\<close> is
  built by a comprehension over \<^verbatim>\<open>tasks_set\<close>, so its keys are in the iteration order
  of that set.
\<close>

definition topo_sort_out :: "(pyset \<Rightarrow> int list) \<Rightarrow> int list \<Rightarrow> edge list \<Rightarrow> error + int list" where
  "topo_sort_out iter tasks edges =
     (let tasks_set = pyset_of tasks;
          indegree0 = map (\<lambda>t. (t, 0)) (iter tasks_set)
      in case topo_sort_edges tasks_set edges ([], indegree0) of
           Inl err \<Rightarrow> Inl err
         | Inr (prereq_to_dependents, indegree) \<Rightarrow>
             kahn_while iter prereq_to_dependents
               (map fst (filter (\<lambda>(t, deg). deg = 0) indegree)) [] indegree)"

definition topo_sort :: "(pyset \<Rightarrow> int list) \<Rightarrow> int list \<Rightarrow> edge list \<Rightarrow> error + int list" where
  "topo_sort iter tasks edges =
     (case topo_sort_out iter tasks edges of
        Inl err \<Rightarrow> Inl err
      | Inr out \<Rightarrow>
          if length out \<noteq> length (pyset_of tasks) then Inl ValueError else Inr out)"

section \<open>Python standard library: dates and timestamps\<close>

text \<open>
  The parts of \<^verbatim>\<open>datetime\<close> that db.py calls, for the texts the program itself writes:
  dates \<^verbatim>\<open>YYYY-MM-DD\<close> and timestamps \<^verbatim>\<open>YYYY-MM-DD*HH:MM:SS\<close> with an optional
  offset \<^verbatim>\<open>+HH:MM\<close>. Any other text is a \<^verbatim>\<open>ValueError\<close> here.
\<close>

definition is_digit :: "char \<Rightarrow> bool" where
  "is_digit c \<longleftrightarrow> CHR ''0'' \<le> c \<and> c \<le> CHR ''9''"

definition digit_value :: "char \<Rightarrow> nat" where
  "digit_value c = of_char c - 48"

definition int_of_digits :: "string \<Rightarrow> nat" where
  "int_of_digits s = foldl (\<lambda>n c. 10 * n + digit_value c) 0 s"

definition digit_char :: "nat \<Rightarrow> char" where
  "digit_char n = char_of (48 + n)"

fun zero_padded :: "nat \<Rightarrow> nat \<Rightarrow> string" where
  "zero_padded 0 n = []"
| "zero_padded (Suc k) n = zero_padded k (n div 10) @ [digit_char (n mod 10)]"

record date =
  year :: nat
  month :: nat
  day :: nat

definition is_leap :: "nat \<Rightarrow> bool" where
  "is_leap y \<longleftrightarrow> y mod 4 = 0 \<and> (y mod 100 \<noteq> 0 \<or> y mod 400 = 0)"

definition days_in_month :: "nat \<Rightarrow> nat \<Rightarrow> nat" where
  "days_in_month y m =
     (if m = 2 then (if is_leap y then 29 else 28)
      else if m = 4 \<or> m = 6 \<or> m = 9 \<or> m = 11 then 30 else 31)"

definition date_fromisoformat :: "string \<Rightarrow> error + date" where
  "date_fromisoformat s =
     (if length s = 10 \<and> list_all is_digit (take 4 s) \<and> s ! 4 = CHR ''-'' \<and>
         list_all is_digit (take 2 (drop 5 s)) \<and> s ! 7 = CHR ''-'' \<and>
         list_all is_digit (drop 8 s)
      then
        let y = int_of_digits (take 4 s);
            m = int_of_digits (take 2 (drop 5 s));
            d = int_of_digits (drop 8 s)
        in if 1 \<le> y \<and> 1 \<le> m \<and> m \<le> 12 \<and> 1 \<le> d \<and> d \<le> days_in_month y m
           then Inr \<lparr>year = y, month = m, day = d\<rparr>
           else Inl ValueError
      else Inl ValueError)"

definition date_isoformat :: "date \<Rightarrow> string" where
  "date_isoformat d =
     zero_padded 4 (year d) @ ''-'' @ zero_padded 2 (month d) @ ''-'' @ zero_padded 2 (day d)"

text \<open>
  A \<^verbatim>\<open>datetime\<close>; \<open>utcoffset\<close> is the offset of its \<^verbatim>\<open>tzinfo\<close> in minutes, \<open>None\<close> for
  a naive value.
\<close>

record datetime =
  dt_date :: date
  hour :: nat
  minute :: nat
  second :: nat
  microsecond :: nat
  utcoffset :: "int option"

definition time_fromisoformat :: "string \<Rightarrow> error + nat \<times> nat \<times> nat" where
  "time_fromisoformat s =
     (if length s = 8 \<and> list_all is_digit (take 2 s) \<and> s ! 2 = CHR '':'' \<and>
         list_all is_digit (take 2 (drop 3 s)) \<and> s ! 5 = CHR '':'' \<and>
         list_all is_digit (drop 6 s)
      then
        let h = int_of_digits (take 2 s);
            mi = int_of_digits (take 2 (drop 3 s));
            sec = int_of_digits (drop 6 s)
        in if h < 24 \<and> mi < 60 \<and> sec < 60 then Inr (h, mi, sec) else Inl ValueError
      else Inl ValueError)"

definition offset_fromisoformat :: "string \<Rightarrow> error + int option" where
  "offset_fromisoformat s =
     (if s = [] then Inr None
      else if length s = 6 \<and> (s ! 0 = CHR ''+'' \<or> s ! 0 = CHR ''-'') \<and>
              list_all is_digit (take 2 (drop 1 s)) \<and> s ! 3 = CHR '':'' \<and>
              list_all is_digit (drop 4 s)
      then
        let h = int_of_digits (take 2 (drop 1 s));
            mi = int_of_digits (drop 4 s)
        in if h < 24 \<and> mi < 60
           then Inr (Some ((if s ! 0 = CHR ''-'' then - 1 else 1) * int (60 * h + mi)))
           else Inl ValueError
      else Inl ValueError)"

definition datetime_fromisoformat :: "string \<Rightarrow> error + datetime" where
  "datetime_fromisoformat s =
     (if length s < 19 then Inl ValueError
      else
        case date_fromisoformat (take 10 s) of
          Inl err \<Rightarrow> Inl err
        | Inr d \<Rightarrow>
            (case time_fromisoformat (take 8 (drop 11 s)) of
               Inl err \<Rightarrow> Inl err
             | Inr (h, mi, sec) \<Rightarrow>
                 (case offset_fromisoformat (drop 19 s) of
                    Inl err \<Rightarrow> Inl err
                  | Inr off \<Rightarrow>
                      Inr \<lparr>dt_date = d, hour = h, minute = mi, second = sec,
                           microsecond = 0, utcoffset = off\<rparr>)))"

definition datetime_isoformat :: "datetime \<Rightarrow> string" where
  "datetime_isoformat dt =
     date_isoformat (dt_date dt) @ ''T'' @
     zero_padded 2 (hour dt) @ '':'' @ zero_padded 2 (minute dt) @ '':'' @
     zero_padded 2 (second dt) @
     (if microsecond dt \<noteq> 0 then ''.'' @ zero_padded 6 (microsecond dt) else []) @
     (case utcoffset dt of
        None \<Rightarrow> []
      | Some off \<Rightarrow>
          (if off < 0 then ''-'' else ''+'') @
          zero_padded 2 (nat \<bar>off\<bar> div 60) @ '':'' @ zero_padded 2 (nat \<bar>off\<bar> mod 60))"

text \<open>\<^verbatim>\<open>s.replace("Z", "+00:00")\<close>: every \<^verbatim>\<open>Z\<close> of the text is replaced.\<close>

definition replace_Z :: "string \<Rightarrow> string" where
  "replace_Z s = concat (map (\<lambda>c. if c = CHR ''Z'' then ''+00:00'' else [c]) s)"

section \<open>Task store (models.py, db.py)\<close>

text \<open>The dataclass \<^verbatim>\<open>Task\<close>; its field \<^verbatim>\<open>id\<close> is \<open>id'\<close> here.\<close>

record Task =
  id' :: int
  title :: string
  description :: string
  priority :: int
  due :: "date option"
  status :: string
  tags :: string
  created_at :: datetime
  updated_at :: datetime

text \<open>
  A row of the table \<^verbatim>\<open>tasks\<close>, one field per column; \<open>c_due = None\<close> is SQL
  \<^verbatim>\<open>NULL\<close>. The database is the list of rows of each of its two tables. The primary keys
  make \<open>c_id\<close> unique among the rows of \<^verbatim>\<open>tasks\<close> and every pair unique in
  \<^verbatim>\<open>deps\<close>; the foreign keys make both components of a pair the \<open>c_id\<close> of a row.
\<close>

record row =
  c_id :: int
  c_title :: string
  c_description :: string
  c_priority :: int
  c_due :: "string option"
  c_status :: string
  c_tags :: string
  c_created_at :: string
  c_updated_at :: string

record store =
  tasks_table :: "row list"
  deps_table :: "(int \<times> int) list"

text \<open>A list comprehension whose element expression can raise.\<close>

fun comprehension :: "('a \<Rightarrow> error + 'b) \<Rightarrow> 'a list \<Rightarrow> error + 'b list" where
  "comprehension f [] = Inr []"
| "comprehension f (x # xs) =
     (case f x of
        Inl err \<Rightarrow> Inl err
      | Inr y \<Rightarrow> (case comprehension f xs of Inl err \<Rightarrow> Inl err | Inr ys \<Rightarrow> Inr (y # ys)))"

definition parse_due :: "string option \<Rightarrow> error + date option" where
  "parse_due due_text =
     (case due_text of
        None \<Rightarrow> Inr None
      | Some text \<Rightarrow> map_sum (\<lambda>err. err) Some (date_fromisoformat text))"

definition row_to_task :: "row \<Rightarrow> error + Task" where
  "row_to_task r =
     (case parse_due (c_due r) of
        Inl err \<Rightarrow> Inl err
      | Inr d \<Rightarrow>
          (case datetime_fromisoformat (replace_Z (c_created_at r)) of
             Inl err \<Rightarrow> Inl err
           | Inr created \<Rightarrow>
               (case datetime_fromisoformat (replace_Z (c_updated_at r)) of
                  Inl err \<Rightarrow> Inl err
                | Inr updated \<Rightarrow>
                    Inr \<lparr>id' = c_id r, title = c_title r, description = c_description r,
                         priority = c_priority r, due = d, status = c_status r,
                         tags = c_tags r, created_at = created, updated_at = updated\<rparr>)))"

text \<open>
  \<^verbatim>\<open>SELECT * FROM tasks [WHERE status = ?] ORDER BY id ASC\<close>. The \<^verbatim>\<open>if status:\<close> of
  list_tasks takes the second query for \<^verbatim>\<open>None\<close> and for the empty string.
\<close>

definition list_tasks :: "store \<Rightarrow> string option \<Rightarrow> error + Task list" where
  "list_tasks st status_arg =
     (let rows = (if status_arg \<noteq> None \<and> status_arg \<noteq> Some []
                  then sort_key c_id (filter (\<lambda>t. Some (c_status t) = status_arg) (tasks_table st))
                  else sort_key c_id (tasks_table st))
      in comprehension row_to_task rows)"

definition get_dependencies :: "store \<Rightarrow> (int \<times> int) list" where
  "get_dependencies st = deps_table st"

text \<open>
  The query of ready_tasks. \<open>unmet_prerequisite\<close> is its \<^verbatim>\<open>EXISTS\<close> subquery for the task
  row \<open>t\<close>: a row \<open>d\<close> of \<^verbatim>\<open>deps\<close> joined with a row \<open>prereq\<close> of \<^verbatim>\<open>tasks\<close>.
  \<open>order_key\<close> is the \<^verbatim>\<open>ORDER BY\<close> list: the \<^verbatim>\<open>CASE\<close> expression, then \<^verbatim>\<open>due\<close>
  ascending (texts compare byte by byte, \<^verbatim>\<open>NULL\<close> below every text), then
  \<^verbatim>\<open>priority\<close> descending, then \<^verbatim>\<open>id\<close> ascending.
\<close>

definition unmet_prerequisite :: "store \<Rightarrow> row \<Rightarrow> bool" where
  "unmet_prerequisite st t =
     list_ex (\<lambda>d. list_ex (\<lambda>prereq. c_id prereq = snd d \<and> fst d = c_id t \<and>
                                     c_status prereq \<noteq> ''done'') (tasks_table st))
             (deps_table st)"

definition order_key :: "row \<Rightarrow> int \<times> string option \<times> int \<times> int" where
  "order_key t = (if c_due t = None then 1 else 0, c_due t, - c_priority t, c_id t)"

definition ready_rows :: "store \<Rightarrow> row list" where
  "ready_rows st =
     sort_key order_key
       (filter (\<lambda>t. c_status t = ''todo'' \<and> \<not> unmet_prerequisite st t) (tasks_table st))"

definition ready_tasks :: "store \<Rightarrow> error + Task list" where
  "ready_tasks st = comprehension row_to_task (ready_rows st)"

text \<open>
  The interchange document: an object of \<^verbatim>\<open>tasks\<close> is a \<open>json_task\<close>, where \<open>None\<close> is
  a key that is absent (for \<open>j_due\<close> also the value \<^verbatim>\<open>null\<close>).
\<close>

record json_task =
  j_id :: "int option"
  j_title :: "string option"
  j_description :: "string option"
  j_priority :: "int option"
  j_due :: "string option"
  j_status :: "string option"
  j_tags :: "string option"
  j_created_at :: "string option"
  j_updated_at :: "string option"

record document =
  doc_tasks :: "json_task list option"
  doc_deps :: "(int \<times> int) list option"

definition task_to_dict :: "Task \<Rightarrow> json_task" where
  "task_to_dict t =
     \<lparr>j_id = Some (id' t), j_title = Some (title t), j_description = Some (description t),
      j_priority = Some (priority t), j_due = map_option date_isoformat (due t),
      j_status = Some (status t), j_tags = Some (tags t),
      j_created_at = Some (datetime_isoformat (created_at t)),
      j_updated_at = Some (datetime_isoformat (updated_at t))\<rparr>"

definition export_json :: "store \<Rightarrow> error + document" where
  "export_json st =
     (case list_tasks st None of
        Inl err \<Rightarrow> Inl err
      | Inr tasks \<Rightarrow>
          Inr \<lparr>doc_tasks = Some (map task_to_dict tasks), doc_deps = Some (get_dependencies st)\<rparr>)"

text \<open>
  \<^verbatim>\<open>INSERT INTO tasks\<close> with an explicit id: an integer outside 64 bits cannot be bound,
  and an id that is already in the table violates the primary key.
\<close>

definition sqlite_integer :: "int \<Rightarrow> bool" where
  "sqlite_integer v \<longleftrightarrow> - (2 ^ 63) \<le> v \<and> v < 2 ^ 63"

definition insert_task :: "row \<Rightarrow> store \<Rightarrow> error + store" where
  "insert_task r st =
     (if \<not> sqlite_integer (c_id r) \<or> \<not> sqlite_integer (c_priority r) then Inl OverflowError
      else if c_id r \<in> c_id ` set (tasks_table st) then Inl IntegrityError
      else Inr (st\<lparr>tasks_table := tasks_table st @ [r]\<rparr>))"

text \<open>
  \<^verbatim>\<open>INSERT INTO deps\<close>: the pair must be new (primary key) and both ids must be ids of
  rows of \<^verbatim>\<open>tasks\<close> (foreign keys, which connect switches on).
\<close>

definition insert_dep :: "int \<times> int \<Rightarrow> store \<Rightarrow> error + store" where
  "insert_dep d st =
     (if \<not> sqlite_integer (fst d) \<or> \<not> sqlite_integer (snd d) then Inl OverflowError
      else if d \<in> set (deps_table st) then Inl IntegrityError
      else if fst d \<notin> c_id ` set (tasks_table st) \<or> snd d \<notin> c_id ` set (tasks_table st)
      then Inl IntegrityError
      else Inr (st\<lparr>deps_table := deps_table st @ [d]\<rparr>))"

text \<open>
  The tuple of values import_json binds for one object of \<^verbatim>\<open>tasks\<close>. \<open>now\<close> is the
  clock: \<open>now k\<close> is the text the \<open>k\<close>-th call of \<^verbatim>\<open>_iso_now()\<close> returns; each object
  calls it twice, for the two defaults, whether or not they are used.
\<close>

definition json_task_row :: "(nat \<Rightarrow> string) \<Rightarrow> nat \<Rightarrow> json_task \<Rightarrow> error + row" where
  "json_task_row now i t =
     (case j_id t of
        None \<Rightarrow> Inl KeyError
      | Some ident \<Rightarrow>
          (case j_title t of
             None \<Rightarrow> Inl KeyError
           | Some ttl \<Rightarrow>
               Inr \<lparr>c_id = ident, c_title = ttl,
                    c_description = (case j_description t of None \<Rightarrow> [] | Some v \<Rightarrow> v),
                    c_priority = (case j_priority t of None \<Rightarrow> 0 | Some v \<Rightarrow> v),
                    c_due = j_due t,
                    c_status = (case j_status t of None \<Rightarrow> ''todo'' | Some v \<Rightarrow> v),
                    c_tags = (case j_tags t of None \<Rightarrow> [] | Some v \<Rightarrow> v),
                    c_created_at = (case j_created_at t of None \<Rightarrow> now (2 * i) | Some v \<Rightarrow> v),
                    c_updated_at = (case j_updated_at t of None \<Rightarrow> now (2 * i + 1) | Some v \<Rightarrow> v)\<rparr>))"

fun import_tasks :: "(nat \<Rightarrow> string) \<Rightarrow> nat \<Rightarrow> json_task list \<Rightarrow> store \<Rightarrow> error + store" where
  "import_tasks now i [] st = Inr st"
| "import_tasks now i (t # ts) st =
     (case json_task_row now i t of
        Inl err \<Rightarrow> Inl err
      | Inr r \<Rightarrow>
          (case insert_task r st of
             Inl err \<Rightarrow> Inl err
           | Inr st' \<Rightarrow> import_tasks now (Suc i) ts st'))"

fun import_deps :: "(int \<times> int) list \<Rightarrow> store \<Rightarrow> error + store" where
  "import_deps [] st = Inr st"
| "import_deps (d # ds) st =
     (case insert_dep d st of
        Inl err \<Rightarrow> Inl err
      | Inr st' \<Rightarrow> import_deps ds st')"

text \<open>
  import_json works in one transaction, which connect commits only when the body has not
  raised: the result is the new content of the database, or the exception, and then the
  database keeps the content \<open>st\<close> it had.
\<close>

definition import_json :: "(nat \<Rightarrow> string) \<Rightarrow> store \<Rightarrow> document \<Rightarrow> error + store" where
  "import_json now st data =
     (let st1 = st\<lparr>deps_table := []\<rparr>;
          st2 = st1\<lparr>tasks_table := []\<rparr>
      in case import_tasks now 0 (case doc_tasks data of None \<Rightarrow> [] | Some ts \<Rightarrow> ts) st2 of
           Inl err \<Rightarrow> Inl err
         | Inr st3 \<Rightarrow> import_deps (case doc_deps data of None \<Rightarrow> [] | Some ds \<Rightarrow> ds) st3)"

section \<open>Specification notions for the graph engine\<close>

text \<open>
  \<open>dict_view\<close> reads a dictionary of sets as a mapping from keys to sets of nodes, which is
  what Python's equality on such dictionaries compares. \<open>set_at d k\<close> is the set
  \<^verbatim>\<open>d.get(k, set())\<close>, and \<open>adj_edges\<close> the edge relation an adjacency mapping stands for.
  \<open>iter_edges\<close> is the relation the traversal actually follows, through \<open>iter\<close>.
\<close>

definition dict_view :: "pyset pydict \<Rightarrow> int \<rightharpoonup> int set" where
  "dict_view d = map_option set \<circ> map_of d"

definition nodes_of :: "edge list \<Rightarrow> int set" where
  "nodes_of edges = fst ` set edges \<union> snd ` set edges"

definition set_at :: "pyset pydict \<Rightarrow> int \<Rightarrow> int set" where
  "set_at d k = set (dict_get d k [])"

definition adj_edges :: "pyset pydict \<Rightarrow> (int \<times> int) set" where
  "adj_edges adj = {(u, v). v \<in> set_at adj u}"

definition iter_edges :: "(pyset \<Rightarrow> int list) \<Rightarrow> pyset pydict \<Rightarrow> (int \<times> int) set" where
  "iter_edges iter adj = {(u, v). v \<in> set (iter (dict_get adj u []))}"

definition dfs_inv :: "(int \<times> int) set \<Rightarrow> int \<Rightarrow> int \<Rightarrow> int list \<Rightarrow> int set \<Rightarrow> bool" where
  "dfs_inv R start target stack visited \<longleftrightarrow>
     target \<notin> set stack \<union> visited \<and>
     start \<in> set stack \<union> visited \<and>
     set stack \<union> visited \<subseteq> R\<^sup>* `` {start} \<and>
     R `` visited \<subseteq> set stack \<union> visited"

text \<open>
  For topo_sort: \<open>restrict_edges\<close> keeps the edges with both endpoints among the tasks;
  \<open>position\<close> is the index of the first occurrence of an element; \<open>prereqs\<close> is the set of
  direct prerequisites of a task, \<open>in_degree\<close> the number of edges that leave it, counted
  with repetitions, and \<open>excess\<close> the number of those that repeat an earlier edge.
  \<open>kahn_inv\<close> is the invariant of the while loop, \<open>kahn_result\<close> what it leaves of it at the
  end, and \<open>dependents_ok\<close> says that the inverted adjacency dictionary stands for the edges.
\<close>

definition restrict_edges :: "int list \<Rightarrow> edge list \<Rightarrow> edge list" where
  "restrict_edges tasks edges =
     filter (\<lambda>(task, prereq). task \<in> set tasks \<and> prereq \<in> set tasks) edges"

definition position :: "int list \<Rightarrow> int \<Rightarrow> nat" where
  "position xs x = length (takeWhile (\<lambda>y. y \<noteq> x) xs)"

definition prereqs :: "edge list \<Rightarrow> int \<Rightarrow> int set" where
  "prereqs edges t = {p. (t, p) \<in> set edges}"

definition in_degree :: "edge list \<Rightarrow> int \<Rightarrow> int" where
  "in_degree edges t = int (length (filter (\<lambda>e. fst e = t) edges))"

definition excess :: "edge list \<Rightarrow> int \<Rightarrow> int" where
  "excess edges t = in_degree edges t - int (card (prereqs edges t))"

definition kahn_inv :: "int set \<Rightarrow> edge list \<Rightarrow> int list \<Rightarrow> int list \<Rightarrow> int pydict \<Rightarrow> bool" where
  "kahn_inv T E q out ind \<longleftrightarrow>
     distinct (out @ q) \<and> set (out @ q) \<subseteq> T \<and>
     (\<forall>t\<in>T. map_of ind t = Some (excess E t + int (card (prereqs E t - set out)))) \<and>
     (\<forall>t\<in>T. (t \<in> set (out @ q)) = (excess E t = 0 \<and> prereqs E t \<subseteq> set out)) \<and>
     (\<forall>i<length out. prereqs E (out ! i) \<subseteq> set (take i out))"

definition kahn_result :: "int set \<Rightarrow> edge list \<Rightarrow> int list \<Rightarrow> bool" where
  "kahn_result T E out \<longleftrightarrow>
     distinct out \<and> set out \<subseteq> T \<and>
     (\<forall>t\<in>T. (t \<in> set out) = (excess E t = 0 \<and> prereqs E t \<subseteq> set out)) \<and>
     (\<forall>i<length out. prereqs E (out ! i) \<subseteq> set (take i out))"

definition dependents_ok :: "edge list \<Rightarrow> pyset pydict \<Rightarrow> bool" where
  "dependents_ok E ptd \<longleftrightarrow>
     (\<forall>k. set_at ptd k = {t. (t, k) \<in> set E}) \<and>
     (\<forall>k s. map_of ptd k = Some s \<longrightarrow> distinct s)"

section \<open>Properties of build_adjacency\<close>

lemma set_pyset_add: "set (pyset_add x s) = insert x (set s)"
  by (auto simp: pyset_add_def)

lemma distinct_pyset_add: "distinct s \<Longrightarrow> distinct (pyset_add x s)"
  by (auto simp: pyset_add_def)

lemma map_of_body:
  "map_of (build_adjacency_body (t, p) adj) k =
     (if k = t then Some (pyset_add p (dict_get adj t []))
      else if k = p then Some (dict_get adj p [])
      else map_of adj k)"
  by (auto simp: build_adjacency_body_def defaultdict_getitem_def dict_get_def update_conv' Let_def
           split: option.splits)

lemma dom_body: "dom (map_of (build_adjacency_body (t, p) adj)) = insert t (insert p (dom (map_of adj)))"
  by (auto simp: map_of_body domIff split: if_splits)

lemma set_at_body:
  "set_at (build_adjacency_body (t, p) adj) k = (if k = t then insert p (set_at adj t) else set_at adj k)"
  by (auto simp: set_at_def dict_get_def map_of_body set_pyset_add split: option.splits)

lemma dom_loop:
  "dom (map_of (build_adjacency_loop edges adj)) = dom (map_of adj) \<union> nodes_of edges"
proof (induction edges arbitrary: adj)
  case Nil
  show ?case by (simp add: nodes_of_def)
next
  case (Cons e edges)
  obtain t p where e: "e = (t, p)" by (cases e)
  show ?case by (auto simp: Cons.IH e dom_body nodes_of_def)
qed

lemma set_at_loop:
  "set_at (build_adjacency_loop edges adj) k = set_at adj k \<union> {p. (k, p) \<in> set edges}"
proof (induction edges arbitrary: adj)
  case Nil
  show ?case by simp
next
  case (Cons e edges)
  obtain t p where e: "e = (t, p)" by (cases e)
  show ?case by (auto simp: Cons.IH e set_at_body)
qed

lemma dict_view_eq:
  "dict_view d k = (if k \<in> dom (map_of d) then Some (set_at d k) else None)"
  by (auto simp: dict_view_def set_at_def dict_get_def domIff)

lemma set_at_Nil: "set_at [] k = {}"
  by (simp add: set_at_def dict_get_def)

lemma build_adjacency_view:
  "dict_view (build_adjacency edges) k =
     (if k \<in> nodes_of edges then Some {p. (k, p) \<in> set edges} else None)"
  by (simp add: dict_view_eq build_adjacency_def dom_loop set_at_loop set_at_Nil)

text \<open>
  C6: build_adjacency returns a mapping whose keys are exactly the nodes that are an endpoint of
  some edge; each key maps to exactly the set of its prerequisites; a node that is only a
  prerequisite maps to the empty set; and the mapping depends only on the set of edges, not on
  their order or multiplicity.
\<close>

theorem build_adjacency_spec:
  "dom (dict_view (build_adjacency edges)) = nodes_of edges \<and>
   (\<forall>k \<in> nodes_of edges. dict_view (build_adjacency edges) k = Some {p. (k, p) \<in> set edges}) \<and>
   (\<forall>k. k \<in> snd ` set edges \<and> k \<notin> fst ` set edges \<longrightarrow>
        dict_view (build_adjacency edges) k = Some {}) \<and>
   (\<forall>edges'. set edges' = set edges \<longrightarrow>
        dict_view (build_adjacency edges') = dict_view (build_adjacency edges))"
proof (intro conjI allI ballI impI)
  show "dom (dict_view (build_adjacency edges)) = nodes_of edges"
    by (auto simp: build_adjacency_view domIff split: if_splits)
next
  fix k assume "k \<in> nodes_of edges"
  then show "dict_view (build_adjacency edges) k = Some {p. (k, p) \<in> set edges}"
    by (simp add: build_adjacency_view)
next
  fix k assume "k \<in> snd ` set edges \<and> k \<notin> fst ` set edges"
  then have "k \<in> nodes_of edges" "{p. (k, p) \<in> set edges} = {}"
    by (force simp: nodes_of_def)+
  then show "dict_view (build_adjacency edges) k = Some {}"
    by (simp add: build_adjacency_view)
next
  fix edges' :: "edge list" assume "set edges' = set edges"
  then show "dict_view (build_adjacency edges') = dict_view (build_adjacency edges)"
    by (simp add: fun_eq_iff build_adjacency_view nodes_of_def)
qed

theorem build_adjacency_spec_witness:
  "dom (dict_view (build_adjacency [(2, 1), (3, 2), (2, 1)])) = {1, 2, 3} \<and>
   dict_view (build_adjacency [(2, 1), (3, 2), (2, 1)]) 2 = Some {1} \<and>
   dict_view (build_adjacency [(2, 1), (3, 2), (2, 1)]) 1 = Some {} \<and>
   dict_view (build_adjacency [(3, 2), (2, 1)]) = dict_view (build_adjacency [(2, 1), (3, 2), (2, 1)])"
proof -
  let ?E = "[(2, 1), (3, 2), (2, 1)] :: edge list"
  note spec = build_adjacency_spec [of ?E]
  have n: "nodes_of ?E = {1, 2, 3}"
    by (auto simp: nodes_of_def)
  have p: "{p. (2, p) \<in> set ?E} = {1}"
    by auto
  have c1: "dom (dict_view (build_adjacency ?E)) = {1, 2, 3}"
    using spec [THEN conjunct1] n by simp
  have "2 \<in> nodes_of ?E" by (simp add: n)
  then have "dict_view (build_adjacency ?E) 2 = Some {p. (2, p) \<in> set ?E}"
    using spec [THEN conjunct2, THEN conjunct1] by blast
  then have c2: "dict_view (build_adjacency ?E) 2 = Some {1}"
    by (simp only: p)
  have "1 \<in> snd ` set ?E \<and> 1 \<notin> fst ` set ?E" by simp
  then have c3: "dict_view (build_adjacency ?E) 1 = Some {}"
    using spec [THEN conjunct2, THEN conjunct2, THEN conjunct1] by blast
  have "set [(3, 2), (2, 1)] = set ?E" by auto
  then have c4: "dict_view (build_adjacency [(3, 2), (2, 1)]) = dict_view (build_adjacency ?E)"
    using spec [THEN conjunct2, THEN conjunct2, THEN conjunct2] by blast
  from c1 c2 c3 c4 show ?thesis by (intro conjI)
qed

section \<open>Properties of has_path\<close>

lemma has_path_for_eq:
  "has_path_for target visited ns stack =
     (if target \<in> set ns then None else Some (stack @ filter (\<lambda>x. x \<notin> visited) ns))"
  by (induction ns arbitrary: stack) auto

lemma dfs_inv_done:
  assumes "dfs_inv R start target [] visited"
  shows "(start, target) \<notin> R\<^sup>*"
proof
  assume r: "(start, target) \<in> R\<^sup>*"
  from assms have s: "start \<in> visited" and c: "R `` visited \<subseteq> visited" and t: "target \<notin> visited"
    by (auto simp: dfs_inv_def)
  from r s have "target \<in> visited"
    by (induction rule: rtrancl_induct) (use c in auto)
  with t show False by simp
qed

lemma iter_edges_finite_range: "finite (Range (iter_edges iter adj))"
proof -
  have "Range (iter_edges iter adj) \<subseteq> set (iter []) \<union> (\<Union>s \<in> snd ` set adj. set (iter s))"
  proof
    fix v assume "v \<in> Range (iter_edges iter adj)"
    then obtain u where v: "v \<in> set (iter (dict_get adj u []))"
      by (auto simp: iter_edges_def)
    show "v \<in> set (iter []) \<union> (\<Union>s \<in> snd ` set adj. set (iter s))"
    proof (cases "map_of adj u")
      case None
      then show ?thesis using v by (simp add: dict_get_def)
    next
      case (Some s)
      then have "s \<in> snd ` set adj" by (force dest: map_of_SomeD)
      then show ?thesis using v Some by (auto simp: dict_get_def)
    qed
  qed
  moreover have "finite (set (iter []) \<union> (\<Union>s \<in> snd ` set adj. set (iter s)))" by simp
  ultimately show ?thesis by (rule finite_subset)
qed

lemma has_path_while_total:
  assumes U: "finite U" "Range (iter_edges iter adj) \<subseteq> U"
  shows "set stack \<subseteq> U \<Longrightarrow>
     \<exists>b. has_path_while iter adj target stack visited = Some b \<and>
         (dfs_inv (iter_edges iter adj) start target stack visited \<longrightarrow>
            b = ((start, target) \<in> (iter_edges iter adj)\<^sup>*))"
proof (induction "(card (U - visited), length stack)" arbitrary: stack visited
        rule: wf_induct_rule[OF wf_lex_prod[OF wf_less_than wf_less_than]])
  case 1
  let ?R = "iter_edges iter adj"
  note IH = 1(1) and sub = 1(2)
  show ?case
  proof (cases "stack = []")
    case True
    then show ?thesis
      using dfs_inv_done[of ?R start target visited]
      by (subst has_path_while.simps) auto
  next
    case ne: False
    define node where "node = last stack"
    define stack1 where "stack1 = butlast stack"
    have stack: "stack = stack1 @ [node]"
      using ne by (simp add: node_def stack1_def)
    show ?thesis
    proof (cases "node \<in> visited")
      case True
      have "((card (U - visited), length stack1), (card (U - visited), length stack))
              \<in> less_than <*lex*> less_than"
        by (simp add: stack)
      moreover have "set stack1 \<subseteq> U" using sub by (auto simp: stack)
      ultimately obtain b where b: "has_path_while iter adj target stack1 visited = Some b"
        "dfs_inv ?R start target stack1 visited \<longrightarrow> b = ((start, target) \<in> ?R\<^sup>*)"
        using IH by blast
      have "dfs_inv ?R start target stack visited \<Longrightarrow> dfs_inv ?R start target stack1 visited"
        using True by (auto simp: dfs_inv_def stack)
      moreover have "has_path_while iter adj target stack visited = Some b"
        using ne True b(1) by (subst has_path_while.simps) (simp add: node_def stack1_def Let_def)
      ultimately show ?thesis using b(2) by blast
    next
      case False
      define ns where "ns = iter (dict_get adj node [])"
      define visited1 where "visited1 = insert node visited"
      have ns: "set ns = ?R `` {node}"
        by (auto simp: ns_def iter_edges_def)
      have unfold: "has_path_while iter adj target stack visited =
          (case has_path_for target visited1 ns stack1 of
             None \<Rightarrow> Some True
           | Some stack2 \<Rightarrow> has_path_while iter adj target stack2 visited1)"
        using ne False
        by (subst has_path_while.simps)
           (simp add: node_def stack1_def ns_def visited1_def Let_def cong: option.case_cong)
      show ?thesis
      proof (cases "target \<in> set ns")
        case True
        have "dfs_inv ?R start target stack visited \<Longrightarrow> (start, target) \<in> ?R\<^sup>*"
        proof -
          assume "dfs_inv ?R start target stack visited"
          then have "(start, node) \<in> ?R\<^sup>*" by (auto simp: dfs_inv_def stack)
          moreover have "(node, target) \<in> ?R" using True ns by auto
          ultimately show ?thesis by (rule rtrancl_into_rtrancl)
        qed
        then show ?thesis using True by (auto simp: unfold has_path_for_eq)
      next
        case nt: False
        define stack2 where "stack2 = stack1 @ filter (\<lambda>x. x \<notin> visited1) ns"
        have node_U: "node \<in> U" using sub by (auto simp: stack)
        have "card (U - visited1) < card (U - visited)"
          using node_U False U(1)
          by (intro psubset_card_mono) (auto simp: visited1_def)
        then have "((card (U - visited1), length stack2), (card (U - visited), length stack))
              \<in> less_than <*lex*> less_than"
          by simp
        moreover have "set stack2 \<subseteq> U"
          using sub U(2) ns by (auto simp: stack stack2_def)
        ultimately obtain b where b: "has_path_while iter adj target stack2 visited1 = Some b"
          "dfs_inv ?R start target stack2 visited1 \<longrightarrow> b = ((start, target) \<in> ?R\<^sup>*)"
          using IH by blast
        have "dfs_inv ?R start target stack2 visited1" if inv: "dfs_inv ?R start target stack visited"
        proof -
          from inv have a: "target \<notin> set stack \<union> visited" and b: "start \<in> set stack \<union> visited"
            and c: "set stack \<union> visited \<subseteq> ?R\<^sup>* `` {start}" and d: "?R `` visited \<subseteq> set stack \<union> visited"
            by (auto simp: dfs_inv_def)
          have "target \<notin> set stack2 \<union> visited1"
            using a nt by (auto simp: stack stack2_def visited1_def)
          moreover have "start \<in> set stack2 \<union> visited1"
            using b by (auto simp: stack stack2_def visited1_def)
          moreover have "set stack2 \<union> visited1 \<subseteq> ?R\<^sup>* `` {start}"
          proof -
            have n: "(start, node) \<in> ?R\<^sup>*" using c by (auto simp: stack)
            then have "set ns \<subseteq> ?R\<^sup>* `` {start}"
              using ns by (auto intro: rtrancl_into_rtrancl)
            then show ?thesis using c n by (auto simp: stack stack2_def visited1_def)
          qed
          moreover have "?R `` visited1 \<subseteq> set stack2 \<union> visited1"
          proof -
            have "?R `` visited1 = ?R `` visited \<union> set ns"
              using ns by (auto simp: visited1_def)
            then show ?thesis using d by (auto simp: stack stack2_def visited1_def)
          qed
          ultimately show ?thesis by (simp add: dfs_inv_def)
        qed
        moreover have "has_path_while iter adj target stack visited = Some b"
          using nt b(1) by (simp add: unfold has_path_for_eq stack2_def)
        ultimately show ?thesis using b(2) by blast
      qed
    qed
  qed
qed

lemma iter_edges_set_order: "set_order iter \<Longrightarrow> iter_edges iter adj = adj_edges adj"
  by (auto simp: set_order_def iter_edges_def adj_edges_def set_at_def dest: mset_eq_setD)

lemma has_path_while_initial:
  "start \<noteq> target \<Longrightarrow>
   \<exists>b. has_path_while iter adj target [start] {} = Some b \<and>
       b = ((start, target) \<in> (iter_edges iter adj)\<^sup>*)"
proof -
  assume ne: "start \<noteq> target"
  define U where "U = insert start (Range (iter_edges iter adj))"
  have "finite U" "Range (iter_edges iter adj) \<subseteq> U" "set [start] \<subseteq> U"
    by (auto simp: U_def iter_edges_finite_range)
  from has_path_while_total[OF this, of target "{}" start]
  obtain b where b: "has_path_while iter adj target [start] {} = Some b"
    "dfs_inv (iter_edges iter adj) start target [start] {} \<longrightarrow>
       b = ((start, target) \<in> (iter_edges iter adj)\<^sup>*)"
    by blast
  have "dfs_inv (iter_edges iter adj) start target [start] {}"
    using ne by (auto simp: dfs_inv_def)
  then show ?thesis using b by blast
qed

lemma has_path_iter_edges:
  "has_path iter adj start target = Some ((start, target) \<in> (iter_edges iter adj)\<^sup>*)"
  using has_path_while_initial[of start target iter adj]
  by (cases "start = target") (auto simp: has_path_def)

text \<open>
  C5: has_path returns true iff there is a directed path of zero or more hops from start to
  target along the out-edges of adj; in particular has_path(adj, a, a) is true for every node a,
  also one that is not a key of adj.
\<close>

theorem has_path_spec:
  "set_order iter \<Longrightarrow>
   has_path iter adj start target = Some ((start, target) \<in> (adj_edges adj)\<^sup>*) \<and>
   has_path iter adj a a = Some True"
  by (simp add: has_path_iter_edges iter_edges_set_order)

theorem has_path_spec_witness:
  "set_order rev \<and>
   has_path rev [(2, [1]), (1, []), (3, [2, 1])] 3 1 = Some True \<and>
   (3, 1) \<in> (adj_edges [(2, [1]), (1, []), (3, [2, 1])])\<^sup>* \<and>
   has_path rev [(2, [1]), (1, []), (3, [2, 1])] 1 3 = Some False \<and>
   (1, 3) \<notin> (adj_edges [(2, [1]), (1, []), (3, [2, 1])])\<^sup>* \<and>
   has_path rev [(2, [1]), (1, []), (3, [2, 1])] 7 7 = Some True"
proof -
  have h: "set_order rev" by (simp add: set_order_def)
  have t: "has_path rev [(2, [1]), (1, []), (3, [2, 1])] 3 1 = Some True" by code_simp
  have f: "has_path rev [(2, [1]), (1, []), (3, [2, 1])] 1 3 = Some False" by code_simp
  show ?thesis
    using has_path_spec [OF h, of "[(2, [1]), (1, []), (3, [2, 1])]" 3 1 7]
      has_path_spec [OF h, of "[(2, [1]), (1, []), (3, [2, 1])]" 1 3 7] h t f
    by simp
qed

text \<open>
  C10: has_path terminates for every adjacency mapping and every start and target, also when
  the graph has directed cycles: every pass of the loop either shortens the stack or adds a
  node to the visited set, and only finitely many nodes can ever be on the stack.
\<close>

theorem has_path_terminates: "\<exists>b. has_path iter adj start target = Some b"
  by (simp add: has_path_iter_edges)

section \<open>Properties of would_create_cycle\<close>

lemma adj_edges_build_adjacency: "adj_edges (build_adjacency edges) = set edges"
  by (auto simp: adj_edges_def build_adjacency_def set_at_loop set_at_Nil)

text \<open>
  C1: would_create_cycle returns true when task_id = prereq_id, whatever the edges; otherwise
  it returns true iff the edges already contain a directed path of one or more hops from
  prereq_id to task_id; it returns false in every other case.
\<close>

theorem would_create_cycle_spec:
  "set_order iter \<Longrightarrow>
   would_create_cycle iter edges task_id prereq_id =
     Some (task_id = prereq_id \<or> (prereq_id, task_id) \<in> (set edges)\<^sup>+)"
  by (auto simp: would_create_cycle_def has_path_spec adj_edges_build_adjacency rtrancl_eq_or_trancl)

theorem would_create_cycle_spec_witness:
  "set_order rev \<and>
   would_create_cycle rev [(2, 1), (3, 2)] 1 3 = Some True \<and>
   (3 :: int, 1 :: int) \<in> (set [(2, 1), (3, 2)])\<^sup>+ \<and>
   would_create_cycle rev [(2, 1), (3, 2)] 4 3 = Some False \<and>
   (3 :: int, 4 :: int) \<notin> (set [(2, 1), (3, 2)])\<^sup>+"
proof -
  have h: "set_order rev" by (simp add: set_order_def)
  have t: "would_create_cycle rev [(2, 1), (3, 2)] 1 3 = Some True" by code_simp
  have f: "would_create_cycle rev [(2, 1), (3, 2)] 4 3 = Some False" by code_simp
  show ?thesis
    using would_create_cycle_spec [OF h, of "[(2, 1), (3, 2)]" 1 3]
      would_create_cycle_spec [OF h, of "[(2, 1), (3, 2)]" 4 3] h t f
    by simp
qed

section \<open>Properties of topo_sort\<close>

lemma pyset_fold:
  "set (foldl (\<lambda>s x. pyset_add x s) s0 xs) = set s0 \<union> set xs \<and>
   (distinct s0 \<longrightarrow> distinct (foldl (\<lambda>s x. pyset_add x s) s0 xs))"
  by (induction xs arbitrary: s0) (auto simp: set_pyset_add distinct_pyset_add)

lemma set_pyset_of: "set (pyset_of xs) = set xs"
  by (simp add: pyset_of_def pyset_fold)

lemma distinct_pyset_of: "distinct (pyset_of xs)"
  by (simp add: pyset_of_def pyset_fold)

lemma topo_sort_edges_filter:
  "topo_sort_edges ts edges st =
     topo_sort_edges ts (filter (\<lambda>(task, prereq). task \<in> set ts \<and> prereq \<in> set ts) edges) st"
proof (induction edges arbitrary: st)
  case Nil
  show ?case by simp
next
  case (Cons e edges)
  obtain t p where e: "e = (t, p)" by (cases e)
  show ?case
  proof (cases "t \<in> set ts \<and> p \<in> set ts")
    case True
    then show ?thesis by (simp add: e Cons.IH cong: sum.case_cong)
  next
    case False
    then have "topo_sort_edge ts e st = Inr st"
      by (auto simp: topo_sort_edge_def e split: prod.splits)
    with False show ?thesis by (auto simp: e Cons.IH)
  qed
qed

lemma set_at_update:
  "set_at (AList.update k v d) k' = (if k' = k then set v else set_at d k')"
  by (simp add: set_at_def dict_get_def update_conv')

lemma defaultdict_getitem_eq:
  "defaultdict_getitem d k =
     (if map_of d k = None then AList.update k [] d else d, dict_get d k [])"
  by (cases "map_of d k") (simp_all add: defaultdict_getitem_def dict_get_def)

lemma topo_sort_edge_run:
  assumes "t \<in> set ts" "p \<in> set ts" "map_of ind t = Some v"
  shows "topo_sort_edge ts (t, p) (ptd, ind) =
     Inr (AList.update p (pyset_add t (dict_get ptd p []))
            (if map_of ptd p = None then AList.update p [] ptd else ptd),
          AList.update t (v + 1) ind)"
  unfolding topo_sort_edge_def defaultdict_getitem_eq dict_getitem_def
  using assms by simp

lemma topo_sort_edge_step:
  assumes "t \<in> set ts" "p \<in> set ts" "map_of ind t = Some v"
  shows "\<exists>ptd'. topo_sort_edge ts (t, p) (ptd, ind) = Inr (ptd', AList.update t (v + 1) ind) \<and>
           (\<forall>k. set_at ptd' k = (if k = p then insert t (set_at ptd p) else set_at ptd k)) \<and>
           ((\<forall>k s. map_of ptd k = Some s \<longrightarrow> distinct s) \<longrightarrow>
            (\<forall>k s. map_of ptd' k = Some s \<longrightarrow> distinct s))"
proof -
  define s where "s = dict_get ptd p []"
  define ptd' where "ptd' = AList.update p (pyset_add t s)
                              (if map_of ptd p = None then AList.update p [] ptd else ptd)"
  have run: "topo_sort_edge ts (t, p) (ptd, ind) = Inr (ptd', AList.update t (v + 1) ind)"
    unfolding ptd'_def s_def by (rule topo_sort_edge_run[OF assms])
  have m: "map_of ptd' k = (if k = p then Some (pyset_add t s) else map_of ptd k)" for k
    by (simp add: ptd'_def update_conv')
  have s: "set s = set_at ptd p"
    by (simp add: s_def set_at_def)
  have a: "\<forall>k. set_at ptd' k = (if k = p then insert t (set_at ptd p) else set_at ptd k)"
    by (simp add: ptd'_def set_at_update set_pyset_add s)
  have b: "(\<forall>k s. map_of ptd k = Some s \<longrightarrow> distinct s) \<longrightarrow>
            (\<forall>k s. map_of ptd' k = Some s \<longrightarrow> distinct s)"
  proof (intro impI allI)
    fix k s'
    assume d: "\<forall>k s. map_of ptd k = Some s \<longrightarrow> distinct s" and k: "map_of ptd' k = Some s'"
    have "distinct s"
    proof (cases "map_of ptd p")
      case None
      then show ?thesis by (simp add: s_def dict_get_def)
    next
      case (Some x)
      with d have "distinct x" by blast
      with Some show ?thesis by (simp add: s_def dict_get_def)
    qed
    then have ds: "distinct (pyset_add t s)" by (rule distinct_pyset_add)
    show "distinct s'"
    proof (cases "k = p")
      case True
      with k ds show ?thesis by (simp add: m)
    next
      case False
      with k have "map_of ptd k = Some s'" by (simp add: m)
      with d show ?thesis by blast
    qed
  qed
  from run a b show ?thesis by (intro exI conjI)
qed

lemma in_degree_Cons: "in_degree ((t, p) # edges) k = (if k = t then 1 else 0) + in_degree edges k"
  by (simp add: in_degree_def)

lemma topo_sort_edges_effect:
  assumes "\<forall>(t, p) \<in> set edges. t \<in> set ts \<and> p \<in> set ts"
    and "set ts \<subseteq> dom (map_of ind)"
    and "\<forall>k s. map_of ptd k = Some s \<longrightarrow> distinct s"
  shows "\<exists>ptd' ind'. topo_sort_edges ts edges (ptd, ind) = Inr (ptd', ind') \<and>
           (\<forall>k. set_at ptd' k = set_at ptd k \<union> {t. (t, k) \<in> set edges}) \<and>
           (\<forall>k s. map_of ptd' k = Some s \<longrightarrow> distinct s) \<and>
           map fst ind' = map fst ind \<and>
           (\<forall>k. map_of ind' k = map_option (\<lambda>v. v + in_degree edges k) (map_of ind k))"
  using assms
proof (induction edges arbitrary: ptd ind)
  case Nil
  have r1: "topo_sort_edges ts [] (ptd, ind) = Inr (ptd, ind)" by simp
  have r2: "\<forall>k. set_at ptd k = set_at ptd k \<union> {t. (t, k) \<in> set []}" by simp
  have r3: "map fst ind = map fst ind" by simp
  have r4: "\<forall>k. map_of ind k = map_option (\<lambda>v. v + in_degree [] k) (map_of ind k)"
    by (simp add: in_degree_def option.map_ident)
  from r1 r2 Nil.prems(3) r3 r4 show ?case by (intro exI conjI)
next
  case (Cons e edges)
  obtain t p where e: "e = (t, p)" by (cases e)
  from Cons.prems(1) have tp: "t \<in> set ts" "p \<in> set ts" by (auto simp: e)
  with Cons.prems(2) obtain v where v: "map_of ind t = Some v" by auto
  let ?ind1 = "AList.update t (v + 1) ind"
  from topo_sort_edge_step[OF tp v, of ptd]
  obtain ptd1 where step: "topo_sort_edge ts (t, p) (ptd, ind) = Inr (ptd1, ?ind1)"
    and s1: "\<forall>k. set_at ptd1 k = (if k = p then insert t (set_at ptd p) else set_at ptd k)"
    and d1': "(\<forall>k s. map_of ptd k = Some s \<longrightarrow> distinct s) \<longrightarrow>
              (\<forall>k s. map_of ptd1 k = Some s \<longrightarrow> distinct s)"
    by (elim exE conjE)
  from d1' Cons.prems(3) have d1: "\<forall>k s. map_of ptd1 k = Some s \<longrightarrow> distinct s"
    by (rule mp)
  have dom1: "set ts \<subseteq> dom (map_of ?ind1)"
    using Cons.prems(2) by (auto simp: update_conv')
  have "t \<in> fst ` set ind"
    using v by (metis map_of_eq_None_iff option.distinct(1))
  then have keys1: "map fst ?ind1 = map fst ind"
    by (simp add: update_keys)
  from Cons.prems(1) have rest: "\<forall>(t, p) \<in> set edges. t \<in> set ts \<and> p \<in> set ts" by simp
  from Cons.IH[OF rest dom1 d1]
  obtain ptd' ind' where run: "topo_sort_edges ts edges (ptd1, ?ind1) = Inr (ptd', ind')"
    and a: "\<forall>k. set_at ptd' k = set_at ptd1 k \<union> {t. (t, k) \<in> set edges}"
    and b: "\<forall>k s. map_of ptd' k = Some s \<longrightarrow> distinct s"
    and c: "map fst ind' = map fst ?ind1"
    and d: "\<forall>k. map_of ind' k = map_option (\<lambda>v. v + in_degree edges k) (map_of ?ind1 k)"
    by (elim exE conjE)
  have r1: "topo_sort_edges ts (e # edges) (ptd, ind) = Inr (ptd', ind')"
    by (simp add: e step run)
  have r2: "\<forall>k. set_at ptd' k = set_at ptd k \<union> {t. (t, k) \<in> set (e # edges)}"
  proof
    fix k show "set_at ptd' k = set_at ptd k \<union> {t. (t, k) \<in> set (e # edges)}"
      using a[rule_format, of k] s1[rule_format, of k] by (auto simp: e)
  qed
  have r3: "map fst ind' = map fst ind"
    using c keys1 by simp
  have r4: "\<forall>k. map_of ind' k = map_option (\<lambda>v. v + in_degree (e # edges) k) (map_of ind k)"
  proof
    fix k show "map_of ind' k = map_option (\<lambda>v. v + in_degree (e # edges) k) (map_of ind k)"
      using d[rule_format, of k] v by (cases "k = t") (simp_all add: e update_conv' in_degree_Cons)
  qed
  from r1 r2 b r3 r4 show ?case by (intro exI conjI)
qed

lemma kahn_for_effect:
  assumes "distinct ds" "set ds \<subseteq> dom (map_of ind)"
  shows "\<exists>ind'. kahn_for ds (ind, q) = Inr (ind', q @ filter (\<lambda>t. map_of ind t = Some 1) ds) \<and>
           (\<forall>t. map_of ind' t =
                 (if t \<in> set ds then map_option (\<lambda>v. v - 1) (map_of ind t) else map_of ind t))"
  using assms
proof (induction ds arbitrary: ind q)
  case Nil
  show ?case by simp
next
  case (Cons d ds)
  from Cons.prems obtain v where v: "map_of ind d = Some v" by auto
  let ?ind1 = "AList.update d (v - 1) ind"
  let ?q1 = "if v - 1 = 0 then q @ [d] else q"
  have "distinct ds" "set ds \<subseteq> dom (map_of ?ind1)"
    using Cons.prems by (auto simp: update_conv')
  from Cons.IH[OF this, of ?q1]
  obtain ind' where run: "kahn_for ds (?ind1, ?q1) =
        Inr (ind', ?q1 @ filter (\<lambda>t. map_of ?ind1 t = Some 1) ds)"
    and m: "\<forall>t. map_of ind' t =
        (if t \<in> set ds then map_option (\<lambda>v. v - 1) (map_of ?ind1 t) else map_of ?ind1 t)"
    by blast
  have same: "filter (\<lambda>t. map_of ?ind1 t = Some 1) ds = filter (\<lambda>t. map_of ind t = Some 1) ds"
    using Cons.prems(1) by (intro filter_cong) (auto simp: update_conv')
  have "kahn_for (d # ds) (ind, q) = Inr (ind', q @ filter (\<lambda>t. map_of ind t = Some 1) (d # ds))"
    using v run same by (auto simp: dict_getitem_def)
  moreover have "\<forall>t. map_of ind' t =
        (if t \<in> set (d # ds) then map_option (\<lambda>v. v - 1) (map_of ind t) else map_of ind t)"
    using m v Cons.prems(1) by (auto simp: update_conv')
  ultimately show ?case by blast
qed

lemma finite_prereqs: "finite (prereqs E t)"
proof -
  have "prereqs E t \<subseteq> snd ` set E" by (force simp: prereqs_def)
  then show ?thesis by (rule finite_subset) simp
qed

lemma in_degree_card:
  assumes "distinct E"
  shows "in_degree E t = int (card (prereqs E t))"
proof -
  let ?F = "filter (\<lambda>e. fst e = t) E"
  have "prereqs E t = snd ` set ?F" by (force simp: prereqs_def)
  moreover have "inj_on snd (set ?F)" by (auto simp: inj_on_def prod_eq_iff)
  ultimately have "card (prereqs E t) = card (set ?F)" by (simp add: card_image)
  also have "\<dots> = length ?F"
  proof -
    have "distinct ?F" using assms by simp
    then show ?thesis by (rule distinct_card)
  qed
  finally show ?thesis by (simp add: in_degree_def)
qed

lemma excess_nonneg: "0 \<le> excess E t"
proof -
  let ?F = "filter (\<lambda>e. fst e = t) E"
  have "prereqs E t = snd ` set ?F" by (force simp: prereqs_def)
  then have "card (prereqs E t) \<le> card (set ?F)" by (simp add: card_image_le)
  also have "\<dots> \<le> length ?F" by (rule card_length)
  finally show ?thesis by (simp add: excess_def in_degree_def)
qed

lemma excess_distinct: "distinct E \<Longrightarrow> excess E t = 0"
  by (simp add: excess_def in_degree_card)

lemma card_prereqs_snoc:
  assumes "n \<notin> set out"
  shows "int (card (prereqs E t - set (out @ [n]))) =
           (if n \<in> prereqs E t then int (card (prereqs E t - set out)) - 1
            else int (card (prereqs E t - set out)))"
proof (cases "n \<in> prereqs E t")
  case True
  have eq: "prereqs E t - set (out @ [n]) = (prereqs E t - set out) - {n}" by auto
  have mem: "n \<in> prereqs E t - set out" using True assms by simp
  have fin: "finite (prereqs E t - set out)" using finite_prereqs by simp
  have "card ((prereqs E t - set out) - {n}) = card (prereqs E t - set out) - 1"
    using mem fin by (simp add: card_Diff_singleton)
  moreover have "0 < card (prereqs E t - set out)"
    using mem fin by (auto simp: card_gt_0_iff)
  ultimately have "int (card (prereqs E t - set (out @ [n]))) =
                   int (card (prereqs E t - set out)) - 1"
    unfolding eq by linarith
  then show ?thesis using True by simp
next
  case False
  then have "prereqs E t - set (out @ [n]) = prereqs E t - set out" by auto
  then show ?thesis using False by simp
qed

lemma subset_snoc_iff:
  assumes "n \<notin> set out"
  shows "(prereqs E t \<subseteq> set (out @ [n])) =
         (prereqs E t \<subseteq> set out \<or> (n \<in> prereqs E t \<and> card (prereqs E t - set out) = 1))"
proof -
  have fin: "finite (prereqs E t - set out)" using finite_prereqs by simp
  have "(prereqs E t \<subseteq> set (out @ [n])) = (prereqs E t - set out \<subseteq> {n})" by auto
  also have "\<dots> = (prereqs E t - set out = {} \<or> prereqs E t - set out = {n})" by auto
  also have "(prereqs E t - set out = {n}) = (n \<in> prereqs E t \<and> card (prereqs E t - set out) = 1)"
  proof
    assume "prereqs E t - set out = {n}"
    then show "n \<in> prereqs E t \<and> card (prereqs E t - set out) = 1" by auto
  next
    assume a: "n \<in> prereqs E t \<and> card (prereqs E t - set out) = 1"
    then obtain x where x: "prereqs E t - set out = {x}" by (auto simp: card_1_singleton_iff)
    moreover have "n \<in> prereqs E t - set out" using a assms by simp
    ultimately show "prereqs E t - set out = {n}" by auto
  qed
  also have "(prereqs E t - set out = {}) = (prereqs E t \<subseteq> set out)" by auto
  finally show ?thesis .
qed

lemma kahn_inv_step:
  assumes inv: "kahn_inv T E (n # q) out ind"
    and scope: "\<forall>(t, p) \<in> set E. t \<in> T \<and> p \<in> T"
    and ds: "distinct ds" "set ds = {t. (t, n) \<in> set E}"
    and ind': "\<forall>t. map_of ind' t =
                 (if t \<in> set ds then map_option (\<lambda>v. v - 1) (map_of ind t) else map_of ind t)"
  shows "kahn_inv T E (q @ filter (\<lambda>t. map_of ind t = Some 1) ds) (out @ [n]) ind'"
proof -
  let ?new = "filter (\<lambda>t. map_of ind t = Some 1) ds"
  from inv have k1: "distinct (out @ n # q)" and k2: "set (out @ n # q) \<subseteq> T"
    and k3: "\<And>t. t \<in> T \<Longrightarrow>
               map_of ind t = Some (excess E t + int (card (prereqs E t - set out)))"
    and k4: "\<And>t. t \<in> T \<Longrightarrow>
               (t \<in> set (out @ n # q)) = (excess E t = 0 \<and> prereqs E t \<subseteq> set out)"
    and k5: "\<And>i. i < length out \<Longrightarrow> prereqs E (out ! i) \<subseteq> set (take i out)"
    by (simp_all add: kahn_inv_def)
  from k1 have n_out: "n \<notin> set out" by auto
  from k2 have n_T: "n \<in> T" by auto
  have ds_T: "set ds \<subseteq> T" using ds(2) scope by auto
  have mem_ds: "(t \<in> set ds) = (n \<in> prereqs E t)" for t
    by (simp add: ds(2) prereqs_def)
  have pos: "0 < card (prereqs E t - set out)" if "n \<in> prereqs E t" for t
  proof -
    have "n \<in> prereqs E t - set out" using that n_out by simp
    moreover have "finite (prereqs E t - set out)" using finite_prereqs by simp
    ultimately show ?thesis by (auto simp: card_gt_0_iff)
  qed
  have new_iff: "(t \<in> set ?new) =
      (excess E t = 0 \<and> n \<in> prereqs E t \<and> card (prereqs E t - set out) = 1)"
    if "t \<in> T" for t
  proof -
    have "(t \<in> set ?new) = (t \<in> set ds \<and> map_of ind t = Some 1)" by simp
    also have "\<dots> = (n \<in> prereqs E t \<and>
                       excess E t + int (card (prereqs E t - set out)) = 1)"
      by (simp add: mem_ds k3[OF that])
    also have "\<dots> = (excess E t = 0 \<and> n \<in> prereqs E t \<and>
                       card (prereqs E t - set out) = 1)"
    proof (cases "n \<in> prereqs E t")
      case True
      from pos[OF True] excess_nonneg[of E t] True show ?thesis by auto
    next
      case False
      then show ?thesis by simp
    qed
    finally show ?thesis .
  qed
  have new_T: "set ?new \<subseteq> T" using ds_T by auto
  have new_fresh: "t \<notin> set (out @ n # q)" if "t \<in> set ?new" for t
  proof -
    from that new_T have tT: "t \<in> T" by auto
    from that new_iff[OF tT] have "card (prereqs E t - set out) = 1" by simp
    then have "prereqs E t - set out \<noteq> {}" by (metis card.empty zero_neq_one)
    then have "\<not> prereqs E t \<subseteq> set out" by blast
    with k4[OF tT] show ?thesis by simp
  qed
  have c1: "distinct ((out @ [n]) @ q @ ?new)"
  proof -
    have "distinct ?new" using ds(1) by simp
    moreover have "set ?new \<inter> set (out @ n # q) = {}" using new_fresh by blast
    ultimately show ?thesis using k1 by auto
  qed
  have c2: "set ((out @ [n]) @ q @ ?new) \<subseteq> T"
    using k2 new_T by auto
  have c3: "\<forall>t\<in>T. map_of ind' t =
              Some (excess E t + int (card (prereqs E t - set (out @ [n]))))"
  proof
    fix t assume tT: "t \<in> T"
    have "map_of ind' t =
            Some (excess E t +
                  (if n \<in> prereqs E t then int (card (prereqs E t - set out)) - 1
                   else int (card (prereqs E t - set out))))"
      using ind'[rule_format, of t] k3[OF tT] mem_ds[of t] by simp
    then show "map_of ind' t = Some (excess E t + int (card (prereqs E t - set (out @ [n]))))"
      unfolding card_prereqs_snoc[OF n_out] .
  qed
  have c4: "\<forall>t\<in>T. (t \<in> set ((out @ [n]) @ q @ ?new)) =
              (excess E t = 0 \<and> prereqs E t \<subseteq> set (out @ [n]))"
  proof
    fix t assume tT: "t \<in> T"
    have "(t \<in> set ((out @ [n]) @ q @ ?new)) = (t \<in> set (out @ n # q) \<or> t \<in> set ?new)"
      by auto
    also have "\<dots> = (excess E t = 0 \<and> prereqs E t \<subseteq> set out \<or>
                       excess E t = 0 \<and> n \<in> prereqs E t \<and> card (prereqs E t - set out) = 1)"
      by (simp only: k4[OF tT] new_iff[OF tT])
    also have "\<dots> = (excess E t = 0 \<and>
                       (prereqs E t \<subseteq> set out \<or>
                        (n \<in> prereqs E t \<and> card (prereqs E t - set out) = 1)))"
      by blast
    also have "\<dots> = (excess E t = 0 \<and> prereqs E t \<subseteq> set (out @ [n]))"
      by (simp only: subset_snoc_iff[OF n_out])
    finally show "(t \<in> set ((out @ [n]) @ q @ ?new)) =
                  (excess E t = 0 \<and> prereqs E t \<subseteq> set (out @ [n]))" .
  qed
  have c5: "\<forall>i<length (out @ [n]). prereqs E ((out @ [n]) ! i) \<subseteq> set (take i (out @ [n]))"
  proof (intro allI impI)
    fix i assume i: "i < length (out @ [n])"
    show "prereqs E ((out @ [n]) ! i) \<subseteq> set (take i (out @ [n]))"
    proof (cases "i < length out")
      case True
      then show ?thesis using k5[OF True] by (simp add: nth_append)
    next
      case False
      with i have "i = length out" by simp
      moreover have "prereqs E n \<subseteq> set out" using k4[OF n_T] by simp
      ultimately show ?thesis by (simp add: nth_append)
    qed
  qed
  from c1 c2 c3 c4 c5 show ?thesis
    unfolding kahn_inv_def by (intro conjI)
qed

lemma iter_dependents:
  assumes "set_order iter" "dependents_ok E ptd"
  shows "distinct (iter (dict_get ptd n []))"
    and "set (iter (dict_get ptd n [])) = {t. (t, n) \<in> set E}"
proof -
  let ?s = "dict_get ptd n []"
  have m: "mset (iter ?s) = mset ?s" using assms(1) by (simp add: set_order_def)
  have "distinct ?s"
  proof (cases "map_of ptd n")
    case None
    then show ?thesis by (simp add: dict_get_def)
  next
    case (Some x)
    with assms(2) have "distinct x" unfolding dependents_ok_def by blast
    with Some show ?thesis by (simp add: dict_get_def)
  qed
  with m show "distinct (iter ?s)" by (metis mset_eq_imp_distinct_iff)
  have "set (iter ?s) = set ?s" using m by (rule mset_eq_setD)
  also have "\<dots> = set_at ptd n" by (simp add: set_at_def)
  also have "\<dots> = {t. (t, n) \<in> set E}" using assms(2) by (simp add: dependents_ok_def)
  finally show "set (iter ?s) = {t. (t, n) \<in> set E}" .
qed

lemma kahn_inv_final: "kahn_inv T E [] out ind \<Longrightarrow> kahn_result T E out"
  by (simp add: kahn_inv_def kahn_result_def)

lemma kahn_while_correct:
  assumes "set_order iter" "dependents_ok E ptd" "\<forall>(t, p) \<in> set E. t \<in> T \<and> p \<in> T"
  shows "kahn_inv T E q out ind \<Longrightarrow>
         \<exists>out'. kahn_while iter ptd q out ind = Inr out' \<and> kahn_result T E out'"
  using assms
proof (induction iter ptd q out ind rule: kahn_while.induct)
  case (1 iter ptd out ind)
  then show ?case by (simp add: kahn_inv_final)
next
  case (2 iter ptd n q out ind)
  note inv = "2.prems"(1) and so = "2.prems"(2) and ok = "2.prems"(3) and scope = "2.prems"(4)
  let ?ds = "iter (dict_get ptd n [])"
  have ds: "distinct ?ds" "set ?ds = {t. (t, n) \<in> set E}"
    using iter_dependents[OF so ok] by blast+
  have ds_T: "set ?ds \<subseteq> T" using ds(2) scope by auto
  have "T \<subseteq> dom (map_of ind)"
  proof
    fix t assume "t \<in> T"
    with inv have "map_of ind t = Some (excess E t + int (card (prereqs E t - set out)))"
      by (simp add: kahn_inv_def)
    then show "t \<in> dom (map_of ind)" by blast
  qed
  with ds_T have dom: "set ?ds \<subseteq> dom (map_of ind)" by blast
  from kahn_for_effect[OF ds(1) dom, of q]
  obtain ind' where run: "kahn_for ?ds (ind, q) =
        Inr (ind', q @ filter (\<lambda>t. map_of ind t = Some 1) ?ds)"
    and eff: "\<forall>t. map_of ind' t =
        (if t \<in> set ?ds then map_option (\<lambda>v. v - 1) (map_of ind t) else map_of ind t)"
    by (elim exE conjE)
  let ?q' = "q @ filter (\<lambda>t. map_of ind t = Some 1) ?ds"
  have inv': "kahn_inv T E ?q' (out @ [n]) ind'"
    by (rule kahn_inv_step[OF inv scope ds eff])
  from "2.IH"[OF run refl inv' so ok scope]
  obtain out' where "kahn_while iter ptd ?q' (out @ [n]) ind' = Inr out'" "kahn_result T E out'"
    by (elim exE conjE)
  then show ?case by (simp add: run)
qed

lemma position_less: "x \<in> set xs \<Longrightarrow> position xs x < length xs"
  by (induction xs) (auto simp: position_def)

lemma position_nth: "x \<in> set xs \<Longrightarrow> xs ! position xs x = x"
  by (induction xs) (auto simp: position_def)

lemma position_unique: "distinct xs \<Longrightarrow> j < length xs \<Longrightarrow> position xs (xs ! j) = j"
proof (induction xs arbitrary: j)
  case Nil
  then show ?case by simp
next
  case (Cons x xs)
  show ?case
  proof (cases j)
    case 0
    then show ?thesis by (simp add: position_def)
  next
    case (Suc k)
    with Cons.prems have "xs ! k \<noteq> x" by auto
    moreover have "position xs (xs ! k) = k" using Cons Suc by simp
    ultimately show ?thesis using Suc by (simp add: position_def)
  qed
qed

lemma kahn_result_edge:
  assumes "kahn_result T E out" "(t, p) \<in> set E" "t \<in> set out"
  shows "p \<in> set out \<and> position out p < position out t"
proof -
  let ?i = "position out t"
  from assms(1) have dist: "distinct out"
    and ord: "\<And>i. i < length out \<Longrightarrow> prereqs E (out ! i) \<subseteq> set (take i out)"
    by (simp_all add: kahn_result_def)
  have i: "?i < length out" "out ! ?i = t"
    using assms(3) by (simp_all add: position_less position_nth)
  have "p \<in> prereqs E (out ! ?i)" using assms(2) i(2) by (simp add: prereqs_def)
  with ord[OF i(1)] have "p \<in> set (take ?i out)" by blast
  then obtain j where j: "j < length (take ?i out)" "take ?i out ! j = p"
    by (auto simp: in_set_conv_nth)
  then have j': "j < ?i" "j < length out" "out ! j = p" using i(1) by simp_all
  then have "position out p = j" using position_unique[OF dist j'(2)] by simp
  moreover have "p \<in> set out" using j' by (metis nth_mem)
  ultimately show ?thesis using j'(1) by simp
qed

lemma kahn_result_path:
  assumes "kahn_result T E out" "(t, p) \<in> (set E)\<^sup>+" "t \<in> set out"
  shows "p \<in> set out \<and> position out p < position out t"
  using assms(2,3)
proof (induction rule: trancl_induct)
  case (base y)
  then show ?case using kahn_result_edge[OF assms(1)] by blast
next
  case (step y z)
  then have y: "y \<in> set out" "position out y < position out t" by simp_all
  from kahn_result_edge[OF assms(1) step.hyps(2) y(1)] y(2) show ?case by simp
qed

lemma kahn_result_acyclic:
  assumes res: "kahn_result T E out" and scope: "\<forall>(t, p) \<in> set E. t \<in> T \<and> p \<in> T"
    and dist: "distinct E" and ac: "acyclic (set E)"
  shows "set out = T"
proof (rule ccontr)
  assume ne: "set out \<noteq> T"
  from res have sub: "set out \<subseteq> T"
    and closed': "\<And>t. t \<in> T \<Longrightarrow>
                    (t \<in> set out) = (excess E t = 0 \<and> prereqs E t \<subseteq> set out)"
    by (simp_all add: kahn_result_def)
  have closed: "(t \<in> set out) = (prereqs E t \<subseteq> set out)" if "t \<in> T" for t
    using closed'[OF that] by (simp add: excess_distinct[OF dist])
  define S where "S = T - set out"
  from ne sub obtain x where x: "x \<in> S" by (auto simp: S_def)
  have wf: "wf ((set E)\<inverse>)"
    using ac by (intro finite_acyclic_wf_converse) simp_all
  from wf x obtain z where z: "z \<in> S" "\<And>y. (y, z) \<in> (set E)\<inverse> \<Longrightarrow> y \<notin> S"
    by (rule wfE_min) blast
  from z(1) have "z \<in> T" "z \<notin> set out" by (simp_all add: S_def)
  with closed have "\<not> prereqs E z \<subseteq> set out" by simp
  then obtain p where p: "(z, p) \<in> set E" "p \<notin> set out" by (auto simp: prereqs_def)
  with scope have "p \<in> T" by auto
  with p(2) have "p \<in> S" by (simp add: S_def)
  moreover have "(p, z) \<in> (set E)\<inverse>" using p(1) by simp
  ultimately show False using z(2) by blast
qed

lemma kahn_result_cyclic:
  assumes res: "kahn_result T E out" and scope: "\<forall>(t, p) \<in> set E. t \<in> T \<and> p \<in> T"
    and cyc: "\<not> acyclic (set E)"
  shows "set out \<noteq> T"
proof -
  from cyc obtain x where x: "(x, x) \<in> (set E)\<^sup>+" by (auto simp: acyclic_def)
  then obtain y where "(x, y) \<in> set E" by (meson tranclD)
  with scope have "x \<in> T" by auto
  moreover have "x \<notin> set out"
  proof
    assume "x \<in> set out"
    from kahn_result_path[OF res x this] show False by simp
  qed
  ultimately show ?thesis by blast
qed

lemma map_of_zero:
  "map_of (map (\<lambda>t. (t, 0 :: int)) ts) k = (if k \<in> set ts then Some 0 else None)"
  by (induction ts) auto

lemma kahn_inv_initial:
  assumes keys: "distinct (map fst ind)"
    and vals: "\<forall>k. map_of ind k = (if k \<in> T then Some (in_degree E k) else None)"
  shows "kahn_inv T E (map fst (filter (\<lambda>(t, deg). deg = 0) ind)) [] ind"
proof -
  let ?q = "map fst (filter (\<lambda>(t, deg). deg = 0) ind)"
  have mem: "(t \<in> set ?q) = (map_of ind t = Some 0)" for t
  proof -
    have "(t \<in> set ?q) = ((t, 0) \<in> set ind)" by force
    also have "\<dots> = (map_of ind t = Some 0)" using keys by simp
    finally show ?thesis .
  qed
  have deg: "in_degree E t = excess E t + int (card (prereqs E t))" for t
    by (simp add: excess_def)
  have c1: "distinct ([] @ ?q)" using keys by (simp add: distinct_map_filter)
  have c2: "set ([] @ ?q) \<subseteq> T"
  proof
    fix t assume "t \<in> set ([] @ ?q)"
    then have "map_of ind t = Some 0" by (simp only: append_Nil mem)
    with vals[rule_format, of t] show "t \<in> T" by (simp split: if_splits)
  qed
  have c3: "\<forall>t\<in>T. map_of ind t = Some (excess E t + int (card (prereqs E t - set [])))"
    using vals by (simp add: deg)
  have c4: "\<forall>t\<in>T. (t \<in> set ([] @ ?q)) = (excess E t = 0 \<and> prereqs E t \<subseteq> set [])"
  proof
    fix t assume "t \<in> T"
    then have "map_of ind t = Some (excess E t + int (card (prereqs E t)))"
      using vals by (simp add: deg)
    then have "(t \<in> set ?q) = (excess E t + int (card (prereqs E t)) = 0)"
      by (simp only: mem) simp
    also have "\<dots> = (excess E t = 0 \<and> card (prereqs E t) = 0)"
      using excess_nonneg[of E t] by auto
    also have "\<dots> = (excess E t = 0 \<and> prereqs E t = {})"
      using finite_prereqs[of E t] by simp
    finally have "(t \<in> set ?q) = (excess E t = 0 \<and> prereqs E t = {})" .
    then show "(t \<in> set ([] @ ?q)) = (excess E t = 0 \<and> prereqs E t \<subseteq> set [])"
      by (simp only: append_Nil list.set subset_empty)
  qed
  have c5: "\<forall>i<length ([] :: int list). prereqs E ([] ! i) \<subseteq> set (take i [])" by simp
  from c1 c2 c3 c4 c5 show ?thesis unfolding kahn_inv_def by (intro conjI)
qed

lemma set_restrict_edges:
  "set (restrict_edges tasks edges) = {(t, p). (t, p) \<in> set edges \<and> t \<in> set tasks \<and> p \<in> set tasks}"
  by (auto simp: restrict_edges_def)

lemma topo_sort_out_restrict:
  "topo_sort_out iter tasks edges = topo_sort_out iter tasks (restrict_edges tasks edges)"
proof -
  have "topo_sort_edges (pyset_of tasks) edges st =
        topo_sort_edges (pyset_of tasks) (restrict_edges tasks edges) st" for st
    using topo_sort_edges_filter[of "pyset_of tasks" edges st]
    by (simp add: restrict_edges_def set_pyset_of)
  then show ?thesis by (simp add: topo_sort_out_def)
qed

lemma topo_sort_restrict:
  "topo_sort iter tasks edges = topo_sort iter tasks (restrict_edges tasks edges)"
  unfolding topo_sort_def by (simp only: topo_sort_out_restrict[symmetric])

lemma topo_sort_out_kahn_result:
  assumes so: "set_order iter"
  shows "\<exists>out. topo_sort_out iter tasks edges = Inr out \<and>
           kahn_result (set tasks) (restrict_edges tasks edges) out"
proof -
  define E where "E = restrict_edges tasks edges"
  define ts where "ts = pyset_of tasks"
  define ind0 where "ind0 = map (\<lambda>t. (t, 0 :: int)) (iter ts)"
  have ts: "set ts = set tasks" "distinct ts"
    by (simp_all add: ts_def set_pyset_of distinct_pyset_of)
  have it: "set (iter ts) = set tasks" "distinct (iter ts)"
  proof -
    have m: "mset (iter ts) = mset ts" using so by (simp add: set_order_def)
    then show "set (iter ts) = set tasks" using ts(1) by (metis mset_eq_setD)
    from m ts(2) show "distinct (iter ts)" by (metis mset_eq_imp_distinct_iff)
  qed
  have scope: "\<forall>(t, p) \<in> set E. t \<in> set tasks \<and> p \<in> set tasks"
    by (auto simp: E_def set_restrict_edges)
  then have scope': "\<forall>(t, p) \<in> set E. t \<in> set ts \<and> p \<in> set ts"
    by (simp add: ts(1))
  have dom0: "set ts \<subseteq> dom (map_of ind0)"
    by (auto simp: ind0_def map_of_zero it(1) ts(1))
  have d0: "\<forall>k s. map_of ([] :: pyset pydict) k = Some s \<longrightarrow> distinct s" by simp
  from topo_sort_edges_effect[OF scope' dom0 d0]
  obtain ptd ind where run: "topo_sort_edges ts E ([], ind0) = Inr (ptd, ind)"
    and a: "\<forall>k. set_at ptd k = set_at [] k \<union> {t. (t, k) \<in> set E}"
    and b: "\<forall>k s. map_of ptd k = Some s \<longrightarrow> distinct s"
    and c: "map fst ind = map fst ind0"
    and d: "\<forall>k. map_of ind k = map_option (\<lambda>v. v + in_degree E k) (map_of ind0 k)"
    by (elim exE conjE)
  have "\<forall>k. set_at ptd k = {t. (t, k) \<in> set E}"
    using a by (simp add: set_at_Nil)
  then have ok: "dependents_ok E ptd"
    unfolding dependents_ok_def using b by (intro conjI)
  have keys: "distinct (map fst ind)"
    using c it(2) by (simp add: ind0_def comp_def)
  have vals: "\<forall>k. map_of ind k = (if k \<in> set tasks then Some (in_degree E k) else None)"
    using d by (simp add: ind0_def map_of_zero it(1))
  have inv: "kahn_inv (set tasks) E (map fst (filter (\<lambda>(t, deg). deg = 0) ind)) [] ind"
    by (rule kahn_inv_initial[OF keys vals])
  from kahn_while_correct[OF so ok scope inv]
  obtain out where out: "kahn_while iter ptd (map fst (filter (\<lambda>(t, deg). deg = 0) ind)) [] ind = Inr out"
    and res: "kahn_result (set tasks) E out"
    by (elim exE conjE)
  have "topo_sort_out iter tasks E =
          (case topo_sort_edges ts E ([], ind0) of
             Inl err \<Rightarrow> Inl err
           | Inr (prereq_to_dependents, indegree) \<Rightarrow>
               kahn_while iter prereq_to_dependents
                 (map fst (filter (\<lambda>(t, deg). deg = 0) indegree)) [] indegree)"
    by (simp only: topo_sort_out_def ts_def ind0_def Let_def)
  also have "\<dots> = Inr out"
    by (simp only: run out sum.case prod.case)
  finally have "topo_sort_out iter tasks edges = Inr out"
    unfolding E_def by (simp only: topo_sort_out_restrict[symmetric])
  with res show ?thesis unfolding E_def by blast
qed

lemma length_pyset_of: "length (pyset_of tasks) = card (set tasks)"
  using distinct_card[OF distinct_pyset_of, of tasks] by (simp add: set_pyset_of)

lemma kahn_result_length:
  assumes "kahn_result T E out" "finite T"
  shows "(length out = card T) = (set out = T)"
proof -
  from assms(1) have d: "distinct out" and s: "set out \<subseteq> T" by (simp_all add: kahn_result_def)
  have "length out = card (set out)" using d by (simp add: distinct_card)
  moreover have "(card (set out) = card T) = (set out = T)"
    using s assms(2) by (metis card_subset_eq)
  ultimately show ?thesis by simp
qed

lemma topo_sort_cases:
  assumes so: "set_order iter"
  shows "\<exists>out. topo_sort_out iter tasks edges = Inr out \<and>
           kahn_result (set tasks) (restrict_edges tasks edges) out \<and>
           length out \<le> card (set tasks) \<and>
           topo_sort iter tasks edges =
             (if length out \<noteq> card (set tasks) then Inl ValueError else Inr out) \<and>
           (distinct (restrict_edges tasks edges) \<and> acyclic (set (restrict_edges tasks edges)) \<longrightarrow>
              set out = set tasks \<and> topo_sort iter tasks edges = Inr out) \<and>
           (\<not> acyclic (set (restrict_edges tasks edges)) \<longrightarrow>
              length out < card (set tasks) \<and> topo_sort iter tasks edges = Inl ValueError)"
proof -
  let ?E = "restrict_edges tasks edges"
  from topo_sort_out_kahn_result[OF so, of tasks edges]
  obtain out where out: "topo_sort_out iter tasks edges = Inr out"
    and res: "kahn_result (set tasks) ?E out"
    by (elim exE conjE)
  have scope: "\<forall>(t, p) \<in> set ?E. t \<in> set tasks \<and> p \<in> set tasks"
    by (auto simp: set_restrict_edges)
  have ts: "topo_sort iter tasks edges =
      (if length out \<noteq> card (set tasks) then Inl ValueError else Inr out)"
    by (simp add: topo_sort_def out length_pyset_of)
  have len: "(length out = card (set tasks)) = (set out = set tasks)"
    by (rule kahn_result_length[OF res]) simp
  have le: "length out \<le> card (set tasks)"
  proof -
    from res have "distinct out" "set out \<subseteq> set tasks" by (simp_all add: kahn_result_def)
    then show ?thesis by (metis card_mono distinct_card List.finite_set)
  qed
  have a: "set out = set tasks \<and> topo_sort iter tasks edges = Inr out"
    if "distinct ?E \<and> acyclic (set ?E)"
  proof -
    from that have d: "distinct ?E" and ac: "acyclic (set ?E)" by simp_all
    have "set out = set tasks" by (rule kahn_result_acyclic[OF res scope d ac])
    then show ?thesis using ts len by simp
  qed
  have b: "length out < card (set tasks) \<and> topo_sort iter tasks edges = Inl ValueError"
    if "\<not> acyclic (set ?E)"
  proof -
    have "set out \<noteq> set tasks" by (rule kahn_result_cyclic[OF res scope that])
    then have "length out \<noteq> card (set tasks)" using len by simp
    then show ?thesis using ts le by simp
  qed
  from out res le ts a b show ?thesis by blast
qed

text \<open>
  C2, as amended: when no edge with both endpoints among the tasks occurs twice in the edge
  list and those edges are acyclic, topo_sort returns a permutation of the task set in which
  every prerequisite stands strictly before every task that depends on it.
\<close>

theorem topo_sort_acyclic:
  assumes "set_order iter"
    and "distinct (restrict_edges tasks edges)"
    and "acyclic (set (restrict_edges tasks edges))"
  shows "\<exists>out. topo_sort iter tasks edges = Inr out \<and>
           distinct out \<and> set out = set tasks \<and>
           (\<forall>(t, p) \<in> set edges. t \<in> set tasks \<and> p \<in> set tasks \<longrightarrow>
               position out p < position out t)"
proof -
  let ?E = "restrict_edges tasks edges"
  from topo_sort_cases[OF assms(1), of tasks edges] assms(2,3)
  obtain out where res: "kahn_result (set tasks) ?E out"
    and s: "set out = set tasks" and r: "topo_sort iter tasks edges = Inr out"
    by blast
  have d: "distinct out" using res by (simp add: kahn_result_def)
  have "position out p < position out t"
    if "(t, p) \<in> set edges" "t \<in> set tasks" "p \<in> set tasks" for t p
  proof -
    have "(t, p) \<in> set ?E" using that by (simp add: set_restrict_edges)
    moreover have "t \<in> set out" using that(2) s by simp
    ultimately show ?thesis using kahn_result_edge[OF res] by blast
  qed
  then have "\<forall>(t, p) \<in> set edges. t \<in> set tasks \<and> p \<in> set tasks \<longrightarrow>
               position out p < position out t"
    by blast
  with r d s show ?thesis by blast
qed

theorem topo_sort_acyclic_witness:
  "set_order rev \<and>
   distinct (restrict_edges [1, 2, 3] [(2, 1), (3, 2), (3, 9)]) \<and>
   acyclic (set (restrict_edges [1, 2, 3] [(2, 1), (3, 2), (3, 9)])) \<and>
   topo_sort rev [1, 2, 3] [(2, 1), (3, 2), (3, 9)] = Inr [1, 2, 3] \<and>
   position [1, 2, 3] 1 < position [1, 2, 3] 2 \<and>
   position [1, 2, 3] 2 < position [1, 2, 3] 3"
proof -
  let ?tasks = "[1, 2, 3] :: int list"
  let ?edges = "[(2, 1), (3, 2), (3, 9)] :: edge list"
  have h1: "set_order rev" by (simp add: set_order_def)
  have e: "restrict_edges ?tasks ?edges = [(2, 1), (3, 2)]"
    by (simp add: restrict_edges_def)
  have h2: "distinct (restrict_edges ?tasks ?edges)"
    by (simp add: e)
  have h3: "acyclic (set (restrict_edges ?tasks ?edges))"
    unfolding e by (rule acyclicI_order[where f = "\<lambda>x. x"]) auto
  have v: "topo_sort rev ?tasks ?edges = Inr [1, 2, 3]"
    by code_simp
  from topo_sort_acyclic[OF h1 h2 h3] v
  have o: "\<forall>(t, p) \<in> set ?edges. t \<in> set ?tasks \<and> p \<in> set ?tasks \<longrightarrow>
               position [1, 2, 3] p < position [1, 2, 3] t"
    by simp
  from o have p1: "position [1, 2, 3] 1 < position [1, 2, 3] 2" by simp
  from o have p2: "position [1, 2, 3] 2 < position [1, 2, 3] 3" by simp
  from h1 h2 h3 v p1 p2 show ?thesis by (intro conjI)
qed

theorem topo_sort_acyclic_counterexample:
  "acyclic (set (restrict_edges [1, 2] [(2, 1), (2, 1)])) \<and>
   topo_sort id [1, 2] [(2, 1), (2, 1)] = Inl ValueError"
proof
  have e: "restrict_edges [1, 2] [(2, 1), (2, 1)] = [(2, 1), (2, 1)]"
    by (simp add: restrict_edges_def)
  show "acyclic (set (restrict_edges [1, 2] [(2, 1), (2, 1)]))"
    unfolding e by (rule acyclicI_order[where f = "\<lambda>x. x"]) auto
  show "topo_sort id [1, 2] [(2, 1), (2, 1)] = Inl ValueError"
    by code_simp
qed

text \<open>
  C4, as amended: for every task set and edge list, when the edges with both endpoints among
  the tasks contain a directed cycle, the while loop ends with a list shorter than the task
  set and topo_sort raises its ValueError rather than returning; and when no edge with both
  endpoints among the tasks occurs twice in the edge list, the converse holds too: the list
  is shorter than the task set, and topo_sort raises ValueError, exactly when those edges
  contain a directed cycle, and topo_sort returns the list otherwise. No other error occurs.
\<close>

theorem topo_sort_error_iff_cycle:
  assumes "set_order iter"
  shows "\<exists>out. topo_sort_out iter tasks edges = Inr out \<and>
           (\<not> acyclic (set (restrict_edges tasks edges)) \<longrightarrow>
              length out < card (set tasks) \<and> topo_sort iter tasks edges = Inl ValueError) \<and>
           (distinct (restrict_edges tasks edges) \<longrightarrow>
              (length out < card (set tasks)) = (\<not> acyclic (set (restrict_edges tasks edges))) \<and>
              (topo_sort iter tasks edges = Inl ValueError) =
                (\<not> acyclic (set (restrict_edges tasks edges))) \<and>
              (topo_sort iter tasks edges = Inr out) = acyclic (set (restrict_edges tasks edges)))"
proof -
  let ?E = "restrict_edges tasks edges"
  from topo_sort_cases[OF assms, of tasks edges]
  obtain out where out: "topo_sort_out iter tasks edges = Inr out"
    and res: "kahn_result (set tasks) ?E out"
    and a: "distinct ?E \<and> acyclic (set ?E) \<longrightarrow>
              set out = set tasks \<and> topo_sort iter tasks edges = Inr out"
    and b: "\<not> acyclic (set ?E) \<longrightarrow>
              length out < card (set tasks) \<and> topo_sort iter tasks edges = Inl ValueError"
    by (elim exE conjE)
  have len: "(length out = card (set tasks)) = (set out = set tasks)"
    by (rule kahn_result_length[OF res]) simp
  have c: "(length out < card (set tasks)) = (\<not> acyclic (set ?E)) \<and>
           (topo_sort iter tasks edges = Inl ValueError) = (\<not> acyclic (set ?E)) \<and>
           (topo_sort iter tasks edges = Inr out) = acyclic (set ?E)"
    if d: "distinct ?E"
  proof (cases "acyclic (set ?E)")
    case True
    with a d have "set out = set tasks" "topo_sort iter tasks edges = Inr out" by simp_all
    with len True show ?thesis by simp
  next
    case False
    with b have "length out < card (set tasks)" "topo_sort iter tasks edges = Inl ValueError"
      by simp_all
    with False show ?thesis by simp
  qed
  from out b c show ?thesis by blast
qed

theorem topo_sort_error_iff_cycle_witness:
  "set_order rev \<and>
   \<not> acyclic (set (restrict_edges [1, 2, 3] [(2, 1), (1, 2), (2, 1)])) \<and>
   topo_sort_out rev [1, 2, 3] [(2, 1), (1, 2), (2, 1)] = Inr [3] \<and>
   topo_sort rev [1, 2, 3] [(2, 1), (1, 2), (2, 1)] = Inl ValueError \<and>
   distinct (restrict_edges [1, 2, 3] [(2, 1), (3, 2), (3, 9)]) \<and>
   topo_sort rev [1, 2, 3] [(2, 1), (3, 2), (3, 9)] = Inr [1, 2, 3] \<and>
   acyclic (set (restrict_edges [1, 2, 3] [(2, 1), (3, 2), (3, 9)]))"
proof -
  let ?tasks = "[1, 2, 3] :: int list"
  let ?cyc = "[(2, 1), (1, 2), (2, 1)] :: edge list"
  let ?dag = "[(2, 1), (3, 2), (3, 9)] :: edge list"
  have h1: "set_order rev" by (simp add: set_order_def)
  have e: "restrict_edges ?tasks ?cyc = [(2, 1), (1, 2), (2, 1)]"
    by (simp add: restrict_edges_def)
  have "(1 :: int, 1 :: int) \<in> (set (restrict_edges ?tasks ?cyc))\<^sup>+"
    unfolding e by (rule trancl_into_trancl[where b = 2]) auto
  then have h2: "\<not> acyclic (set (restrict_edges ?tasks ?cyc))"
    unfolding acyclic_def by blast
  have o: "topo_sort_out rev ?tasks ?cyc = Inr [3]"
    by code_simp
  from topo_sort_error_iff_cycle[OF h1, of ?tasks ?cyc] h2
  have v: "topo_sort rev ?tasks ?cyc = Inl ValueError"
    by blast
  have h3: "distinct (restrict_edges ?tasks ?dag)"
    by (simp add: restrict_edges_def)
  have w: "topo_sort rev ?tasks ?dag = Inr [1, 2, 3]"
    by code_simp
  from topo_sort_error_iff_cycle[OF h1, of ?tasks ?dag] h3 w
  have c: "acyclic (set (restrict_edges ?tasks ?dag))"
    by auto
  from h1 h2 o v h3 w c show ?thesis by (intro conjI)
qed

theorem topo_sort_error_iff_cycle_counterexample:
  "topo_sort id [1, 2, 3] [(3, 1), (3, 1)] = Inl ValueError \<and>
   acyclic (set (restrict_edges [1, 2, 3] [(3, 1), (3, 1)]))"
proof
  show "topo_sort id [1, 2, 3] [(3, 1), (3, 1)] = Inl ValueError"
    by code_simp
  have e: "restrict_edges [1, 2, 3] [(3, 1), (3, 1)] = [(3, 1), (3, 1)]"
    by (simp add: restrict_edges_def)
  show "acyclic (set (restrict_edges [1, 2, 3] [(3, 1), (3, 1)]))"
    unfolding e by (rule acyclicI_order[where f = "\<lambda>x. x"]) auto
qed

text \<open>
  C7: topo_sort gives the same result, list or error, on the edge list and on the edge list
  without the edges that have an endpoint outside the task set.
\<close>

theorem topo_sort_ignores_outside_edges:
  "topo_sort iter tasks edges = topo_sort iter tasks (restrict_edges tasks edges) \<and>
   topo_sort_out iter tasks edges = topo_sort_out iter tasks (restrict_edges tasks edges)"
  by (simp add: topo_sort_restrict[symmetric] topo_sort_out_restrict[symmetric])

end
